theory Spec2Isabelle
  imports Main "HOL-Library.Sublist"
begin

text \<open>
  The conversation orchestrator of the multi-persona writing assistant: the agent
  router and the other service functions of \<open>services/geminiService.ts\<close>, the turn
  handler \<open>handleSend\<close> and the suggestion parser \<open>parseMessageContent\<close> of
  \<open>components/CollaborativeEditor.tsx\<close>, with the JavaScript string and JSON
  functions they call.
\<close>

section \<open>JavaScript strings\<close>

text \<open>
  A JavaScript string is a sequence of UTF-16 code units; \<open>length\<close>, \<open>trim\<close>,
  \<open>split\<close> and \<open>replace\<close> all work on code units. A code unit is modelled as a
  natural number; real strings only hold values below 65536. Literals of the source
  outside ASCII are written as their code units, with the source text in \<open>\uXXXX\<close>
  form beside them.
\<close>

type_synonym codeunit = nat
type_synonym jsstring = "codeunit list"

definition utf16 :: "string \<Rightarrow> jsstring" where
  "utf16 s = map of_char s"

text \<open>
  \<open>String.prototype.trim\<close> removes WhiteSpace and LineTerminator code points from both
  ends: TAB, LF, VT, FF, CR, SP, NBSP, U+1680, U+2000..U+200A, U+2028, U+2029, U+202F,
  U+205F, U+3000 and U+FEFF.
\<close>

definition isWhiteSpace :: "codeunit \<Rightarrow> bool" where
  "isWhiteSpace c \<longleftrightarrow>
     (9 \<le> c \<and> c \<le> 13) \<or> c = 32 \<or> c = 0xA0 \<or> c = 0x1680 \<or> (0x2000 \<le> c \<and> c \<le> 0x200A) \<or>
     c = 0x2028 \<or> c = 0x2029 \<or> c = 0x202F \<or> c = 0x205F \<or> c = 0x3000 \<or> c = 0xFEFF"

definition trimStart :: "jsstring \<Rightarrow> jsstring" where
  "trimStart s = dropWhile isWhiteSpace s"

definition trimEnd :: "jsstring \<Rightarrow> jsstring" where
  "trimEnd s = rev (dropWhile isWhiteSpace (rev s))"

definition trim :: "jsstring \<Rightarrow> jsstring" where
  "trim s = trimEnd (trimStart s)"

text \<open>
  \<open>s.replace(/pat/g, '')\<close> for a pattern that is a literal string: the matches are
  found from left to right, each search resuming behind the previous match, and every
  match is deleted.
\<close>

function deleteAll :: "jsstring \<Rightarrow> jsstring \<Rightarrow> jsstring" where
  "deleteAll pat [] = []"
| "deleteAll pat (c # cs) =
     (if pat \<noteq> [] \<and> prefix pat (c # cs)
      then deleteAll pat (drop (length pat) (c # cs))
      else c # deleteAll pat cs)"
  by pat_completeness auto
termination
  by (relation "measure (\<lambda>(pat, s). length s)") auto

text \<open>
  \<open>s.split(sep)\<close> for a string separator: the pieces between successive occurrences of
  \<open>sep\<close>, found from left to right without overlap. \<open>cur\<close> is the piece being
  collected. An empty separator splits into single code units.
\<close>

function split_from :: "jsstring \<Rightarrow> jsstring \<Rightarrow> jsstring \<Rightarrow> jsstring list" where
  "split_from sep cur [] = [cur]"
| "split_from sep cur (c # cs) =
     (if sep \<noteq> [] \<and> prefix sep (c # cs)
      then cur # split_from sep [] (drop (length sep) (c # cs))
      else split_from sep (cur @ [c]) cs)"
  by pat_completeness auto
termination
  by (relation "measure (\<lambda>(sep, cur, s). length s)") auto

definition split :: "jsstring \<Rightarrow> jsstring \<Rightarrow> jsstring list" where
  "split sep s = (if sep = [] then map (\<lambda>c. [c]) s else split_from sep [] s)"

section \<open>types.ts\<close>

datatype RoleId = POLISHER | CHIEF | RESEARCHER | EXECUTOR | EDITOR

fun RoleId_value :: "RoleId \<Rightarrow> jsstring" where
  "RoleId_value POLISHER = utf16 ''polisher''"
| "RoleId_value CHIEF = utf16 ''chief''"
| "RoleId_value RESEARCHER = utf16 ''researcher''"
| "RoleId_value EXECUTOR = utf16 ''executor''"
| "RoleId_value EDITOR = utf16 ''editor''"

record PersonaAnalysis =
  overview :: jsstring
  methodology :: jsstring
  mindset :: jsstring
  expression :: jsstring
  habits :: jsstring
  markers :: jsstring

record Persona =
  personaId :: jsstring
  personaName :: jsstring
  analysis :: PersonaAnalysis
  createdAt :: nat
  sourceText :: "jsstring option"
  sourceUrls :: "jsstring option"

datatype MsgRole = User | Model

text \<open>
  \<open>ChatMessage\<close>; the fields \<open>id\<close> and \<open>text\<close> are \<open>msgId\<close> and \<open>msgText\<close> here. The
  optional fields \<open>isThinking\<close> and \<open>agentId\<close> are \<open>None\<close> when absent.
\<close>

record ChatMessage =
  msgId :: jsstring
  role :: MsgRole
  msgText :: jsstring
  timestamp :: nat
  isThinking :: "bool option"
  agentId :: "RoleId option"

section \<open>The Model Gateway\<close>

text \<open>
  The hosted model is outside the repository. What a call to it does is an input of
  the model: awaiting \<open>generateContent\<close> either throws or returns a response whose
  \<open>text\<close> is a string or \<open>undefined\<close>; awaiting a streaming call either throws or
  returns a stream, which delivers chunks (each with a \<open>text\<close> that is a string or
  \<open>undefined\<close>) and then ends or throws.
\<close>

datatype 'a outcome = Throws | Returns 'a

datatype chunk_stream = StreamEnd | StreamAbort | StreamChunk "jsstring option" chunk_stream

section \<open>services/geminiService.ts\<close>

text \<open>
  The prompt texts are not modelled: each service function is a function of what
  the gateway answers. \<open>toLowerCase\<close> stands for \<open>String.prototype.toLowerCase\<close>, whose
  Unicode case mapping is not part of the repository.
\<close>

text \<open>\<open>t.trim().toLowerCase().replace(/"/g, '')\<close>\<close>

definition normalizeReply :: "(jsstring \<Rightarrow> jsstring) \<Rightarrow> jsstring \<Rightarrow> jsstring" where
  "normalizeReply toLowerCase t = deleteAll [34] (toLowerCase (trim t))"

text \<open>The identities the router may answer with.\<close>

definition ALLOWED_AGENTS :: "RoleId list" where
  "ALLOWED_AGENTS = [CHIEF, RESEARCHER, EXECUTOR, EDITOR]"

definition determineNextAgent ::
    "(jsstring \<Rightarrow> jsstring) \<Rightarrow> jsstring option outcome \<Rightarrow> RoleId outcome" where
  "determineNextAgent toLowerCase reply =
     (case reply of
        Throws \<Rightarrow> Returns CHIEF
      | Returns response_text \<Rightarrow>
          (let normalized = (case response_text of
                               None \<Rightarrow> []
                             | Some t \<Rightarrow> normalizeReply toLowerCase t);
               text = (if normalized = [] then RoleId_value CHIEF else normalized)
           in case find (\<lambda>r. RoleId_value r = text) ALLOWED_AGENTS of
                Some r \<Rightarrow> Returns r
              | None \<Rightarrow> Returns CHIEF))"

text \<open>
  \<open>toLowerCase\<close> on strings of ASCII code units, where it maps \<open>A\<close>..\<open>Z\<close> to
  \<open>a\<close>..\<open>z\<close> and nothing else; used to run the router on concrete answers.
\<close>

definition asciiLowerCase :: "jsstring \<Rightarrow> jsstring" where
  "asciiLowerCase s = map (\<lambda>c. if 65 \<le> c \<and> c \<le> 90 then c + 32 else c) s"

definition TOPIC_FALLBACK :: jsstring where
  \<comment> \<open>\<open>\u65B0\u5199\u4F5C\u9879\u76EE\<close>\<close>
  "TOPIC_FALLBACK = [0x65B0, 0x5199, 0x4F5C, 0x9879, 0x76EE]"

definition extractTopicFromInput :: "jsstring option outcome \<Rightarrow> jsstring outcome" where
  "extractTopicFromInput reply =
     (case reply of
        Throws \<Rightarrow> Throws
      | Returns response_text \<Rightarrow>
          Returns (case response_text of
                     None \<Rightarrow> TOPIC_FALLBACK
                   | Some t \<Rightarrow> if trim t = [] then TOPIC_FALLBACK else trim t))"

definition performResearch :: "jsstring option outcome \<Rightarrow> jsstring option outcome" where
  "performResearch reply = reply"

definition executeWriting :: "chunk_stream outcome \<Rightarrow> chunk_stream outcome" where
  "executeWriting reply = reply"

definition critiqueDraft :: "chunk_stream outcome \<Rightarrow> chunk_stream outcome" where
  "critiqueDraft reply = reply"

definition chatWithChief :: "chunk_stream outcome \<Rightarrow> chunk_stream outcome" where
  "chatWithChief reply = reply"

definition FENCE :: jsstring where
  "FENCE = utf16 ''```''"

definition FENCE_MARKDOWN :: jsstring where
  "FENCE_MARKDOWN = utf16 ''```markdown''"

definition applyEditorFixes :: "jsstring option outcome \<Rightarrow> jsstring outcome" where
  "applyEditorFixes reply =
     (case reply of
        Throws \<Rightarrow> Throws
      | Returns response_text \<Rightarrow>
          (let text = (case response_text of None \<Rightarrow> [] | Some t \<Rightarrow> t)
           in Returns (trim (deleteAll FENCE (deleteAll FENCE_MARKDOWN text)))))"

section \<open>components/CollaborativeEditor.tsx\<close>

subsection \<open>The literals of the component\<close>

definition ONE_CLICK_FIX :: jsstring where
  \<comment> \<open>\<open>\u8BF7\u4F60\u5E2E\u6211\u4E00\u952E\u4FEE\u6539\<close>\<close>
  "ONE_CLICK_FIX = [0x8BF7, 0x4F60, 0x5E2E, 0x6211, 0x4E00, 0x952E, 0x4FEE, 0x6539]"

definition DEFAULT_CRITIQUE :: jsstring where
  \<comment> \<open>\<open>\u8BF7\u4F18\u5316\u5168\u6587\<close>\<close>
  "DEFAULT_CRITIQUE = [0x8BF7, 0x4F18, 0x5316, 0x5168, 0x6587]"

definition FIX_PENDING_TEXT :: jsstring where
  \<comment> \<open>\<open>\u6CA1\u95EE\u9898\uFF0C\u6211\u6B63\u5728\u6839\u636E\u4E4B\u524D\u7684\u8BC4\u5BA1\u610F\u89C1\u8FDB\u884C\u5168\u7BC7\u4FEE\u6539\uFF0C\u8BF7\u7A0D\u5019...\<close>\<close>
  "FIX_PENDING_TEXT =
     [0x6CA1, 0x95EE, 0x9898, 0xFF0C, 0x6211, 0x6B63, 0x5728, 0x6839, 0x636E, 0x4E4B, 0x524D,
      0x7684, 0x8BC4, 0x5BA1, 0x610F, 0x89C1, 0x8FDB, 0x884C, 0x5168, 0x7BC7, 0x4FEE, 0x6539,
      0xFF0C, 0x8BF7, 0x7A0D, 0x5019, 46, 46, 46]"

definition SUGGESTIONS_DELIMITER :: jsstring where
  "SUGGESTIONS_DELIMITER = utf16 '':::SUGGESTIONS:::''"

definition FIX_DONE_TEXT :: jsstring where
  \<comment> \<open>\<open>\u2705 \u5DF2\u6839\u636E\u6BD2\u820C\u4E3B\u7F16\u7684\u610F\u89C1\u5B8C\u6210\u4FEE\u6539\uFF0C\u5E76\u81EA\u52A8\u66F4\u65B0\u4E86\u53F3\u4FA7\u8349\u7A3F\u3002\n\n\u4F60\u53EF\u4EE5\u68C0\u67E5\u4E00\u4E0B\uFF0C\u6216\u8005\u7EE7\u7EED\u8FDB\u884C\u4E0B\u4E00\u6B65\u3002\n\n:::SUGGESTIONS::: ["\u7EE7\u7EED\u5B8C\u5584\u8349\u7A3F", "\u518D\u6B21\u8BC4\u5BA1", "\u5B8C\u6210\u9879\u76EE"]\<close>\<close>
  "FIX_DONE_TEXT =
     [0x2705, 32, 0x5DF2, 0x6839, 0x636E, 0x6BD2, 0x820C, 0x4E3B, 0x7F16, 0x7684, 0x610F, 0x89C1,
      0x5B8C, 0x6210, 0x4FEE, 0x6539, 0xFF0C, 0x5E76, 0x81EA, 0x52A8, 0x66F4, 0x65B0, 0x4E86,
      0x53F3, 0x4FA7, 0x8349, 0x7A3F, 0x3002, 10, 10,
      0x4F60, 0x53EF, 0x4EE5, 0x68C0, 0x67E5, 0x4E00, 0x4E0B, 0xFF0C, 0x6216, 0x8005, 0x7EE7,
      0x7EED, 0x8FDB, 0x884C, 0x4E0B, 0x4E00, 0x6B65, 0x3002, 10, 10]
     @ SUGGESTIONS_DELIMITER @
     [32, 91, 34, 0x7EE7, 0x7EED, 0x5B8C, 0x5584, 0x8349, 0x7A3F, 34, 44, 32,
      34, 0x518D, 0x6B21, 0x8BC4, 0x5BA1, 34, 44, 32,
      34, 0x5B8C, 0x6210, 0x9879, 0x76EE, 34, 93]"

definition NO_RESEARCH_TEXT :: jsstring where
  \<comment> \<open>\<open>\u6CA1\u6709\u627E\u5230\u76F8\u5173\u8C03\u7814\u7ED3\u679C\u3002\<close>\<close>
  "NO_RESEARCH_TEXT =
     [0x6CA1, 0x6709, 0x627E, 0x5230, 0x76F8, 0x5173, 0x8C03, 0x7814, 0x7ED3, 0x679C, 0x3002]"

definition researchBlock :: "jsstring \<Rightarrow> jsstring \<Rightarrow> jsstring" where
  \<comment> \<open>\<open>`\n\n--- \u8C03\u7814\u4E3B\u9898: ${topic} ---\n` + result\<close>\<close>
  "researchBlock topic result =
     [10, 10, 45, 45, 45, 32, 0x8C03, 0x7814, 0x4E3B, 0x9898, 58, 32] @ topic @
     [32, 45, 45, 45, 10] @ result"

definition RESEARCH_CONTEXT :: jsstring where
  "RESEARCH_CONTEXT = [10, 10] @ utf16 ''Research Context:'' @ [10]"

definition NOTHING_TO_REVIEW :: "jsstring \<Rightarrow> jsstring" where
  \<comment> \<open>\<open>"\u8BF7\u5148\u751F\u6210\u8349\u7A3F\uFF0C\u6216\u8005\u76F4\u63A5\u628A\u8981\u8BC4\u5BA1\u7684\u5185\u5BB9\u53D1\u7ED9\u6211\u3002\n\n:::SUGGESTIONS::: ["
        + (draftContent ? "\u8BC4\u5BA1\u5F53\u524D\u8349\u7A3F" : "\u6211\u6765\u5199\u4E00\u6BB5") + "]"\<close>\<close>
  "NOTHING_TO_REVIEW draft =
     [0x8BF7, 0x5148, 0x751F, 0x6210, 0x8349, 0x7A3F, 0xFF0C, 0x6216, 0x8005, 0x76F4, 0x63A5,
      0x628A, 0x8981, 0x8BC4, 0x5BA1, 0x7684, 0x5185, 0x5BB9, 0x53D1, 0x7ED9, 0x6211, 0x3002,
      10, 10]
     @ SUGGESTIONS_DELIMITER @ [32, 91] @
     (if draft \<noteq> [] then [0x8BC4, 0x5BA1, 0x5F53, 0x524D, 0x8349, 0x7A3F]
      else [0x6211, 0x6765, 0x5199, 0x4E00, 0x6BB5])
     @ [93]"

definition ERROR_TEXT :: jsstring where
  \<comment> \<open>\<open>\u53D1\u751F\u9519\u8BEF\uFF0C\u8BF7\u91CD\u8BD5\u3002\<close>\<close>
  "ERROR_TEXT = [0x53D1, 0x751F, 0x9519, 0x8BEF, 0xFF0C, 0x8BF7, 0x91CD, 0x8BD5, 0x3002]"

subsection \<open>State and environment of a turn\<close>

text \<open>
  The service calls a turn makes, with their arguments, in the order they are made.
  The log is not in the source: it records what the source does.
\<close>

datatype service_call =
    CallExtractTopic jsstring
  | CallDetermineNextAgent "(MsgRole \<times> jsstring) list" jsstring
  | CallApplyEditorFixes jsstring jsstring "Persona option"
  | CallPerformResearch jsstring jsstring
  | CallExecuteWriting jsstring jsstring "Persona option"
  | CallCritiqueDraft jsstring "Persona option"
  | CallChatWithChief "(MsgRole \<times> jsstring) list" jsstring "Persona option" jsstring

text \<open>
  The component's state (\<open>useState\<close>) and the props it reads and writes through their
  setters, together with the log of service calls.
\<close>

record editor_state =
  messages :: "ChatMessage list"
  inputValue :: jsstring
  isProcessing :: bool
  draftContent :: jsstring
  researchNotes :: jsstring
  projectTopic :: jsstring
  selectedPersona :: "Persona option"
  calls :: "service_call list"

text \<open>
  What the outside world supplies during one turn: the two \<open>crypto.randomUUID()\<close>
  results, the two \<open>Date.now()\<close> results, \<open>toLowerCase\<close>, and the gateway's answer to
  each service call.
\<close>

record turn_env =
  userUUID :: jsstring
  aiUUID :: jsstring
  userNow :: nat
  aiNow :: nat
  lowerCase :: "jsstring \<Rightarrow> jsstring"
  topicReply :: "jsstring option outcome"
  routerReply :: "jsstring option outcome"
  fixesReply :: "jsstring option outcome"
  researchReply :: "jsstring option outcome"
  executeReply :: "chunk_stream outcome"
  critiqueReply :: "chunk_stream outcome"
  chatReply :: "chunk_stream outcome"

text \<open>How a block of the handler is left.\<close>

datatype completion = Normal | Returned | Thrown

subsection \<open>handleSend\<close>

definition historyOf :: "ChatMessage list \<Rightarrow> (MsgRole \<times> jsstring) list" where
  "historyOf ms = map (\<lambda>m. (role m, msgText m)) ms"

definition updateAiMessage :: "jsstring \<Rightarrow> jsstring \<Rightarrow> ChatMessage list \<Rightarrow> ChatMessage list" where
  "updateAiMessage aiMsgId text ms =
     map (\<lambda>m. if msgId m = aiMsgId then m\<lparr>msgText := text, isThinking := Some False\<rparr> else m) ms"

definition placeholder :: "jsstring \<Rightarrow> RoleId \<Rightarrow> jsstring \<Rightarrow> nat \<Rightarrow> ChatMessage" where
  "placeholder aiMsgId agent text now =
     \<lparr>msgId = aiMsgId, role = Model, msgText = text, timestamp = now,
      isThinking = Some True, agentId = Some agent\<rparr>"

text \<open>\<open>fullText += chunk.text\<close>: an \<open>undefined\<close> text appends the word \<open>undefined\<close>.\<close>

definition chunkText :: "jsstring option \<Rightarrow> jsstring" where
  "chunkText t = (case t of None \<Rightarrow> utf16 ''undefined'' | Some s \<Rightarrow> s)"

text \<open>
  The \<open>for await\<close> loop over a stream: the message lists that the successive calls of
  \<open>updateAiMessage(fullText)\<close> produce, one for each chunk delivered, in order.
\<close>

fun streamStates ::
    "jsstring \<Rightarrow> jsstring \<Rightarrow> chunk_stream \<Rightarrow> ChatMessage list \<Rightarrow> ChatMessage list list" where
  "streamStates aiMsgId fullText StreamEnd ms = []"
| "streamStates aiMsgId fullText StreamAbort ms = []"
| "streamStates aiMsgId fullText (StreamChunk t rest) ms =
     (let fullText' = fullText @ chunkText t;
          ms' = updateAiMessage aiMsgId fullText' ms
      in ms' # streamStates aiMsgId fullText' rest ms')"

fun streamCompletion :: "chunk_stream \<Rightarrow> completion" where
  "streamCompletion StreamEnd = Normal"
| "streamCompletion StreamAbort = Thrown"
| "streamCompletion (StreamChunk t rest) = streamCompletion rest"

definition consumeStream ::
    "jsstring \<Rightarrow> chunk_stream outcome \<Rightarrow> editor_state \<Rightarrow> editor_state \<times> completion" where
  "consumeStream aiMsgId reply cur =
     (case reply of
        Throws \<Rightarrow> (cur, Thrown)
      | Returns stream \<Rightarrow>
          (cur\<lparr>messages := last (messages cur # streamStates aiMsgId [] stream (messages cur))\<rparr>,
           streamCompletion stream))"

text \<open>
  The special flow of the \<open>try\<close> block. \<open>st\<close> is the state the handler's closure was
  created in, \<open>cur\<close> the current state.
\<close>

definition lastCritiqueText :: "ChatMessage list \<Rightarrow> jsstring" where
  "lastCritiqueText ms =
     (let lastCritiqueMsg = find (\<lambda>m. agentId m = Some EDITOR \<and> role m = Model) (rev ms)
      in case lastCritiqueMsg of Some m \<Rightarrow> msgText m | None \<Rightarrow> DEFAULT_CRITIQUE)"

definition oneClickFix ::
    "turn_env \<Rightarrow> editor_state \<Rightarrow> editor_state \<Rightarrow> editor_state \<times> completion" where
  "oneClickFix env st cur =
     (let critiqueText = lastCritiqueText (messages st);
          aiMsgId = aiUUID env;
          cur1 = cur\<lparr>messages := messages cur @ [placeholder aiMsgId EDITOR FIX_PENDING_TEXT (aiNow env)],
                     calls := calls cur @ [CallApplyEditorFixes (draftContent st) critiqueText (selectedPersona st)]\<rparr>
      in case applyEditorFixes (fixesReply env) of
           Throws \<Rightarrow> (cur1, Thrown)
         | Returns result \<Rightarrow>
             (cur1\<lparr>draftContent := (if result \<noteq> [] then result else draftContent st),
                   messages := map (\<lambda>m. if msgId m = aiMsgId
                                         then m\<lparr>msgText := FIX_DONE_TEXT, isThinking := Some False\<rparr>
                                         else m) (messages cur1),
                   isProcessing := False\<rparr>,
              Returned))"

text \<open>\<open>userMsg.text.length > 50 ? userMsg.text : draftContent\<close>\<close>

definition contentToReview :: "jsstring \<Rightarrow> jsstring \<Rightarrow> jsstring" where
  "contentToReview userText draft = (if length userText > 50 then userText else draft)"

text \<open>The dispatch on the routed agent (step 2 of the \<open>try\<close> block).\<close>

definition dispatch ::
    "turn_env \<Rightarrow> editor_state \<Rightarrow> jsstring \<Rightarrow> RoleId \<Rightarrow> editor_state \<Rightarrow> editor_state \<times> completion" where
  "dispatch env st userText targetAgentId cur =
     (let aiMsgId = aiUUID env in
      if targetAgentId = RESEARCHER then
        (let cur1 = cur\<lparr>calls := calls cur @ [CallPerformResearch userText (draftContent st)]\<rparr>
         in case performResearch (researchReply env) of
              Throws \<Rightarrow> (cur1, Thrown)
            | Returns result \<Rightarrow>
                (let shown = (case result of None \<Rightarrow> NO_RESEARCH_TEXT
                              | Some r \<Rightarrow> if r \<noteq> [] then r else NO_RESEARCH_TEXT);
                     cur2 = cur1\<lparr>messages := updateAiMessage aiMsgId shown (messages cur1)\<rparr>
                 in case result of
                      None \<Rightarrow> (cur2, Normal)
                    | Some r \<Rightarrow>
                        if r \<noteq> []
                        then (cur2\<lparr>researchNotes := researchNotes st @ researchBlock userText r\<rparr>, Normal)
                        else (cur2, Normal)))
      else if targetAgentId = EXECUTOR then
        (let cur1 = cur\<lparr>calls := calls cur @
                       [CallExecuteWriting userText (draftContent st @ RESEARCH_CONTEXT @ researchNotes st)
                          (selectedPersona st)]\<rparr>
         in consumeStream aiMsgId (executeWriting (executeReply env)) cur1)
      else if targetAgentId = EDITOR then
        (let content = contentToReview userText (draftContent st)
         in if content = []
            then (cur\<lparr>messages := updateAiMessage aiMsgId (NOTHING_TO_REVIEW (draftContent st)) (messages cur)\<rparr>,
                  Normal)
            else
              (let cur1 = cur\<lparr>calls := calls cur @ [CallCritiqueDraft content (selectedPersona st)]\<rparr>
               in consumeStream aiMsgId (critiqueDraft (critiqueReply env)) cur1))
      else
        (let cur1 = cur\<lparr>calls := calls cur @
                       [CallChatWithChief (historyOf (messages st)) userText (selectedPersona st)
                          (draftContent st)]\<rparr>
         in consumeStream aiMsgId (chatWithChief (chatReply env)) cur1))"

text \<open>The \<open>try\<close> block.\<close>

definition tryBlock ::
    "turn_env \<Rightarrow> editor_state \<Rightarrow> jsstring \<Rightarrow> editor_state \<Rightarrow> editor_state \<times> completion" where
  "tryBlock env st text cur =
     (if text = ONE_CLICK_FIX then oneClickFix env st cur
      else
        (let cur1 = cur\<lparr>calls := calls cur @ [CallDetermineNextAgent (historyOf (messages st)) text]\<rparr>
         in case determineNextAgent (lowerCase env) (routerReply env) of
              Throws \<Rightarrow> (cur1, Thrown)
            | Returns targetAgentId \<Rightarrow>
                dispatch env st text targetAgentId
                  (cur1\<lparr>messages := messages cur1 @ [placeholder (aiUUID env) targetAgentId [] (aiNow env)]\<rparr>)))"

text \<open>The \<open>catch\<close> block.\<close>

definition catchBlock :: "editor_state \<Rightarrow> editor_state" where
  "catchBlock cur =
     cur\<lparr>messages := map (\<lambda>m. if role m = Model \<and> isThinking m = Some True
                                then m\<lparr>msgText := ERROR_TEXT, isThinking := Some False\<rparr>
                                else m) (messages cur)\<rparr>"

text \<open>
  The topic extraction is started and not awaited. Its outcome touches \<open>projectTopic\<close>
  only, which the rest of the turn never reads, so the model lets it settle at once.
\<close>

definition startTopicExtraction :: "turn_env \<Rightarrow> jsstring \<Rightarrow> editor_state \<Rightarrow> editor_state" where
  "startTopicExtraction env text cur =
     (let cur1 = cur\<lparr>calls := calls cur @ [CallExtractTopic text]\<rparr>
      in case extractTopicFromInput (topicReply env) of
           Throws \<Rightarrow> cur1
         | Returns topic \<Rightarrow> if topic \<noteq> [] then cur1\<lparr>projectTopic := topic\<rparr> else cur1)"

text \<open>\<open>textOverride || inputValue\<close>\<close>

definition textToSend :: "jsstring option \<Rightarrow> editor_state \<Rightarrow> jsstring" where
  "textToSend textOverride st =
     (case textOverride of
        None \<Rightarrow> inputValue st
      | Some t \<Rightarrow> if t \<noteq> [] then t else inputValue st)"

definition userMsg :: "turn_env \<Rightarrow> jsstring \<Rightarrow> ChatMessage" where
  "userMsg env text =
     \<lparr>msgId = userUUID env, role = User, msgText = text, timestamp = userNow env,
      isThinking = None, agentId = None\<rparr>"

text \<open>
  The handler up to the \<open>try\<close> block: the user message is appended, the input is
  cleared, the turn is marked in progress and, on the first turn of a project without
  a topic, the topic extraction is started.
\<close>

definition beginTurn :: "turn_env \<Rightarrow> jsstring \<Rightarrow> editor_state \<Rightarrow> editor_state" where
  "beginTurn env text st =
     (let cur1 = st\<lparr>messages := messages st @ [userMsg env text], inputValue := [],
                     isProcessing := True\<rparr>
      in if projectTopic st = [] \<and> length (messages st) \<le> 1
         then startTopicExtraction env text cur1 else cur1)"

text \<open>What follows the \<open>try\<close> block: \<open>catch\<close> when it threw, and \<open>finally\<close> always.\<close>

definition endTurn :: "editor_state \<times> completion \<Rightarrow> editor_state" where
  "endTurn r =
     (case r of (cur, how) \<Rightarrow>
        (if how = Thrown then catchBlock cur else cur)\<lparr>isProcessing := False\<rparr>)"

definition handleSend :: "turn_env \<Rightarrow> jsstring option \<Rightarrow> editor_state \<Rightarrow> editor_state" where
  "handleSend env textOverride st =
     (let text = textToSend textOverride st
      in if trim text = [] then st
         else endTurn (tryBlock env st text (beginTurn env text st)))"

text \<open>The service calls made during one turn, and the calls of the Agent Router among them.\<close>

definition turnCalls :: "turn_env \<Rightarrow> jsstring option \<Rightarrow> editor_state \<Rightarrow> service_call list" where
  "turnCalls env textOverride st =
     drop (length (calls st)) (calls (handleSend env textOverride st))"

fun isRouterCall :: "service_call \<Rightarrow> bool" where
  "isRouterCall (CallDetermineNextAgent h m) = True"
| "isRouterCall c = False"

fun isCritiqueCall :: "service_call \<Rightarrow> bool" where
  "isCritiqueCall (CallCritiqueDraft d p) = True"
| "isCritiqueCall c = False"

text \<open>The topic extraction call of a turn, when the turn makes it.\<close>

definition topicCalls :: "jsstring \<Rightarrow> editor_state \<Rightarrow> service_call list" where
  "topicCalls text st =
     (if projectTopic st = [] \<and> length (messages st) \<le> 1 then [CallExtractTopic text] else [])"

text \<open>A stream that delivers the given text increments in order and then ends.\<close>

fun streamOf :: "jsstring list \<Rightarrow> chunk_stream" where
  "streamOf [] = StreamEnd"
| "streamOf (t # ts) = StreamChunk (Some t) (streamOf ts)"


text \<open>A message that is still pending: an agent message whose \<open>isThinking\<close> is true.\<close>

definition pending :: "ChatMessage \<Rightarrow> bool" where
  "pending m \<longleftrightarrow> role m = Model \<and> isThinking m = Some True"

section \<open>JSON\<close>

text \<open>
  The values \<open>JSON.parse\<close> returns. A number is kept as its text (its value as
  a double is not modelled); an object is kept as its members in source order.
\<close>

datatype json =
    JNull
  | JBool bool
  | JNumber jsstring
  | JString jsstring
  | JArray "json list"
  | JObject "(jsstring \<times> json) list"

definition isJSONWhiteSpace :: "codeunit \<Rightarrow> bool" where
  "isJSONWhiteSpace c \<longleftrightarrow> c = 9 \<or> c = 10 \<or> c = 13 \<or> c = 32"

definition skipWS :: "jsstring \<Rightarrow> jsstring" where
  "skipWS s = dropWhile isJSONWhiteSpace s"

definition isDigit :: "codeunit \<Rightarrow> bool" where
  "isDigit c \<longleftrightarrow> 48 \<le> c \<and> c \<le> 57"

definition hexValue :: "codeunit \<Rightarrow> nat option" where
  "hexValue c =
     (if isDigit c then Some (c - 48)
      else if 97 \<le> c \<and> c \<le> 102 then Some (c - 87)
      else if 65 \<le> c \<and> c \<le> 70 then Some (c - 55)
      else None)"

text \<open>The code unit an escape letter stands for: \<open>\" \\ \/ \b \f \n \r \t\<close>.\<close>

definition escapeChar :: "codeunit \<Rightarrow> codeunit option" where
  "escapeChar e =
     (if e = 34 then Some 34 else if e = 92 then Some 92 else if e = 47 then Some 47
      else if e = 98 then Some 8 else if e = 102 then Some 12 else if e = 110 then Some 10
      else if e = 114 then Some 13 else if e = 116 then Some 9 else None)"

definition consChar :: "codeunit \<Rightarrow> (jsstring \<times> jsstring) option \<Rightarrow> (jsstring \<times> jsstring) option" where
  "consChar x r = (case r of None \<Rightarrow> None | Some (s, rest) \<Rightarrow> Some (x # s, rest))"

text \<open>
  A JSON string behind its opening quote: the string's code units and the input behind
  the closing quote. Control characters below U+0020 are not allowed unescaped.
\<close>

fun parseString :: "jsstring \<Rightarrow> (jsstring \<times> jsstring) option" where
  "parseString [] = None"
| "parseString (c # cs) =
     (if c = 34 then Some ([], cs)
      else if c = 92 then
        (case cs of
           [] \<Rightarrow> None
         | e # r \<Rightarrow>
             if e = 117 then
               (case r of
                  h1 # h2 # h3 # h4 # r' \<Rightarrow>
                    (case (hexValue h1, hexValue h2, hexValue h3, hexValue h4) of
                       (Some a, Some b, Some c, Some d) \<Rightarrow>
                         consChar (((a * 16 + b) * 16 + c) * 16 + d) (parseString r')
                     | _ \<Rightarrow> None)
                | _ \<Rightarrow> None)
             else
               (case escapeChar e of
                  None \<Rightarrow> None
                | Some x \<Rightarrow> consChar x (parseString r)))
      else if c < 32 then None
      else consChar c (parseString cs))"

text \<open>
  A JSON number: \<open>-? (0 | [1-9][0-9]*) (. [0-9]+)? ([eE] [+-]? [0-9]+)?\<close>. Each part
  returns the text it has read and the input behind it.
\<close>

definition parseSign :: "jsstring \<Rightarrow> jsstring \<times> jsstring" where
  "parseSign s = (case s of [] \<Rightarrow> ([], s) | c # r \<Rightarrow> if c = 45 then ([45], r) else ([], s))"

definition parseInt :: "jsstring \<Rightarrow> (jsstring \<times> jsstring) option" where
  "parseInt s =
     (case s of
        [] \<Rightarrow> None
      | d # r \<Rightarrow>
          if d = 48 then Some ([48], r)
          else if isDigit d then Some (d # takeWhile isDigit r, dropWhile isDigit r)
          else None)"

definition parseFrac :: "jsstring \<Rightarrow> (jsstring \<times> jsstring) option" where
  "parseFrac s =
     (case s of
        [] \<Rightarrow> Some ([], s)
      | p # r \<Rightarrow>
          if p = 46 then
            (if takeWhile isDigit r = [] then None
             else Some (46 # takeWhile isDigit r, dropWhile isDigit r))
          else Some ([], s))"

definition parseExp :: "jsstring \<Rightarrow> (jsstring \<times> jsstring) option" where
  "parseExp s =
     (case s of
        [] \<Rightarrow> Some ([], s)
      | e # r \<Rightarrow>
          if e = 101 \<or> e = 69 then
            (let (sign, r1) = (case r of
                                 [] \<Rightarrow> ([], r)
                               | g # r' \<Rightarrow> if g = 43 \<or> g = 45 then ([g], r') else ([], r))
             in if takeWhile isDigit r1 = [] then None
                else Some (e # sign @ takeWhile isDigit r1, dropWhile isDigit r1))
          else Some ([], s))"

definition parseNumber :: "jsstring \<Rightarrow> (jsstring \<times> jsstring) option" where
  "parseNumber s =
     (case parseSign s of (sign, s1) \<Rightarrow>
        (case parseInt s1 of
           None \<Rightarrow> None
         | Some (ipart, s2) \<Rightarrow>
             (case parseFrac s2 of
                None \<Rightarrow> None
              | Some (fpart, s3) \<Rightarrow>
                  (case parseExp s3 of
                     None \<Rightarrow> None
                   | Some (epart, s4) \<Rightarrow> Some (sign @ ipart @ fpart @ epart, s4)))))"

definition parseLiteral :: "jsstring \<Rightarrow> (json \<times> jsstring) option" where
  "parseLiteral s =
     (if prefix (utf16 ''true'') s then Some (JBool True, drop 4 s)
      else if prefix (utf16 ''false'') s then Some (JBool False, drop 5 s)
      else if prefix (utf16 ''null'') s then Some (JNull, drop 4 s)
      else None)"

lemma length_skipWS: "length (skipWS s) \<le> length s"
  by (simp add: skipWS_def length_dropWhile_le)

lemma skipWS_Cons_length: "skipWS s = c # r \<Longrightarrow> length r < length s"
  using length_skipWS[of s] by simp

lemma consChar_Some: "consChar x r = Some (s, rest) \<Longrightarrow> \<exists>s'. r = Some (s', rest)"
  by (auto simp: consChar_def split: option.splits)

lemma parseString_length: "parseString s = Some (k, r) \<Longrightarrow> length r < length s"
proof (induction s arbitrary: k r rule: length_induct)
  case (1 s)
  have ih: "\<And>t k' . length t < length s \<Longrightarrow> consChar x (parseString t) = Some (k', r) \<Longrightarrow> length r < length t" for x
    using "1.IH" consChar_Some by blast
  show ?case
  proof (cases s)
    case Nil
    with "1.prems" show ?thesis by simp
  next
    case (Cons c cs)
    show ?thesis
    proof (cases "c = 34 \<or> c \<noteq> 92")
      case True
      with "1.prems" Cons ih[of cs] show ?thesis
        by (auto split: if_splits simp: less_Suc_eq)
    next
      case False
      then have c: "c = 92" by simp
      show ?thesis
      proof (cases cs)
        case Nil
        with c Cons "1.prems" show ?thesis by simp
      next
        case e: (Cons e t)
        show ?thesis
        proof (cases "e = 117")
          case False
          with c Cons e "1.prems" ih[of t] show ?thesis
            by (auto split: option.splits simp: less_Suc_eq)
        next
          case True
          with c Cons e "1.prems" obtain h1 h2 h3 h4 t' x where
            t: "t = h1 # h2 # h3 # h4 # t'" and "consChar x (parseString t') = Some (k, r)"
            by (auto split: list.splits option.splits)
          then have "length r < length t'" using ih[of t' x k] Cons e by simp
          with t Cons e show ?thesis by simp
        qed
      qed
    qed
  qed
qed

text \<open>
  A JSON value, the elements of an array behind \<open>[\<close> or \<open>,\<close>, and the members of an
  object behind \<open>{\<close> or \<open>,\<close>. Each returns what it has read and the input behind it.
  A value always consumes input; the length tests say so to the termination proof and
  never fail.
\<close>

function parseValue :: "jsstring \<Rightarrow> (json \<times> jsstring) option"
  and parseElements :: "jsstring \<Rightarrow> (json list \<times> jsstring) option"
  and parseMembers :: "jsstring \<Rightarrow> ((jsstring \<times> json) list \<times> jsstring) option"
where
  "parseValue [] = None"
| "parseValue (c # cs) =
     (if isJSONWhiteSpace c then parseValue cs
      else if c = 91 then
        (case skipWS cs of
           [] \<Rightarrow> None
         | d # r \<Rightarrow>
             if d = 93 then Some (JArray [], r)
             else (case parseElements cs of
                     None \<Rightarrow> None
                   | Some (vs, r') \<Rightarrow> Some (JArray vs, r')))
      else if c = 123 then
        (case skipWS cs of
           [] \<Rightarrow> None
         | d # r \<Rightarrow>
             if d = 125 then Some (JObject [], r)
             else (case parseMembers cs of
                     None \<Rightarrow> None
                   | Some (ms, r') \<Rightarrow> Some (JObject ms, r')))
      else if c = 34 then
        (case parseString cs of None \<Rightarrow> None | Some (str, r) \<Rightarrow> Some (JString str, r))
      else if c = 45 \<or> isDigit c then
        (case parseNumber (c # cs) of None \<Rightarrow> None | Some (num, r) \<Rightarrow> Some (JNumber num, r))
      else parseLiteral (c # cs))"
| "parseElements s =
     (case parseValue s of
        None \<Rightarrow> None
      | Some (v, r) \<Rightarrow>
          if length r < length s then
            (case skipWS r of
               [] \<Rightarrow> None
             | d # r' \<Rightarrow>
                 if d = 44 then
                   (case parseElements r' of
                      None \<Rightarrow> None
                    | Some (vs, r'') \<Rightarrow> Some (v # vs, r''))
                 else if d = 93 then Some ([v], r')
                 else None)
          else None)"
| "parseMembers s =
     (case skipWS s of
        [] \<Rightarrow> None
      | q # r \<Rightarrow>
          if q = 34 then
            (case parseString r of
               None \<Rightarrow> None
             | Some (key, r1) \<Rightarrow>
                 (case skipWS r1 of
                    [] \<Rightarrow> None
                  | colon # r2 \<Rightarrow>
                      if colon = 58 then
                        (case parseValue r2 of
                           None \<Rightarrow> None
                         | Some (v, r3) \<Rightarrow>
                             if length r3 < length r2 then
                               (case skipWS r3 of
                                  [] \<Rightarrow> None
                                | d # r4 \<Rightarrow>
                                    if d = 44 then
                                      (case parseMembers r4 of
                                         None \<Rightarrow> None
                                       | Some (ms, r5) \<Rightarrow> Some ((key, v) # ms, r5))
                                    else if d = 125 then Some ([(key, v)], r4)
                                    else None)
                             else None)
                      else None))
          else None)"
  by pat_completeness auto
termination
proof (relation "measure (\<lambda>x. case x of
                              Inl s \<Rightarrow> 2 * length s
                            | Inr (Inl s) \<Rightarrow> 2 * length s + 1
                            | Inr (Inr s) \<Rightarrow> 2 * length s + 1)", goal_cases)
  case 1
  then show ?case by simp
next
  case (2 c cs)
  then show ?case by simp
next
  case (3 c cs d r)
  then show ?case by simp
next
  case (4 c cs d r)
  then show ?case by simp
next
  case (5 s)
  then show ?case by simp
next
  case (6 s x v r d r')
  then show ?case using skipWS_Cons_length[of r d r'] by simp
next
  case (7 s q r key_r1 key r1 colon r2)
  then show ?case
    using skipWS_Cons_length[of s q r] skipWS_Cons_length[of r1 colon r2] parseString_length[of r key r1]
    by simp
next
  case (8 s q r x key r1 colon r2 y v r3 d r4)
  then show ?case
    using skipWS_Cons_length[of s q r] skipWS_Cons_length[of r1 colon r2] parseString_length[of r key r1]
      skipWS_Cons_length[of r3 d r4]
    by simp
qed

definition JSON_parse :: "jsstring \<Rightarrow> json option" where
  "JSON_parse s =
     (case parseValue s of
        None \<Rightarrow> None
      | Some (v, r) \<Rightarrow> if skipWS r = [] then Some v else None)"

text \<open>A parser's result with one more code unit behind the rest of the input.\<close>

definition behind :: "codeunit \<Rightarrow> ('a \<times> jsstring) option \<Rightarrow> ('a \<times> jsstring) option" where
  "behind w res = (case res of None \<Rightarrow> None | Some (x, r) \<Rightarrow> Some (x, r @ [w]))"

text \<open>What a parser has read of \<open>s\<close> when \<open>r\<close> is left ends in the code unit \<open>c\<close>.\<close>

definition readUpTo :: "jsstring \<Rightarrow> codeunit \<Rightarrow> jsstring \<Rightarrow> bool" where
  "readUpTo s c r \<longleftrightarrow> (\<exists>u. s = u @ c # r)"

text \<open>
  \<open>JSON.stringify\<close> of an array of strings. \<open>QuoteJSONString\<close> escapes the quote,
  the backslash, the control characters and every surrogate that is not part of a
  pair; \<open>\uXXXX\<close> escapes have four lower-case hexadecimal digits.
\<close>

definition hexDigit :: "nat \<Rightarrow> codeunit" where
  "hexDigit d = (if d < 10 then 48 + d else 87 + d)"

definition unicodeEscape :: "codeunit \<Rightarrow> jsstring" where
  "unicodeEscape c =
     [92, 117, hexDigit (c div 4096 mod 16), hexDigit (c div 256 mod 16),
      hexDigit (c div 16 mod 16), hexDigit (c mod 16)]"

definition isHighSurrogate :: "codeunit \<Rightarrow> bool" where
  "isHighSurrogate c \<longleftrightarrow> 0xD800 \<le> c \<and> c \<le> 0xDBFF"

definition isLowSurrogate :: "codeunit \<Rightarrow> bool" where
  "isLowSurrogate c \<longleftrightarrow> 0xDC00 \<le> c \<and> c \<le> 0xDFFF"

fun quoteBody :: "jsstring \<Rightarrow> jsstring" where
  "quoteBody [] = []"
| "quoteBody (c # cs) =
     (if c = 8 then [92, 98] @ quoteBody cs
      else if c = 9 then [92, 116] @ quoteBody cs
      else if c = 10 then [92, 110] @ quoteBody cs
      else if c = 12 then [92, 102] @ quoteBody cs
      else if c = 13 then [92, 114] @ quoteBody cs
      else if c = 34 then [92, 34] @ quoteBody cs
      else if c = 92 then [92, 92] @ quoteBody cs
      else if c < 32 then unicodeEscape c @ quoteBody cs
      else if isHighSurrogate c then
        (case cs of
           [] \<Rightarrow> unicodeEscape c
         | d # ds \<Rightarrow>
             if isLowSurrogate d then c # d # quoteBody ds
             else unicodeEscape c @ quoteBody cs)
      else if isLowSurrogate c then unicodeEscape c @ quoteBody cs
      else c # quoteBody cs)"

text \<open>
  The cases of \<open>quoteBody\<close>, named: the code units it escapes whatever follows,
  the letter of a two-character escape, and the code units it copies one by one.
\<close>

definition isEscaped :: "codeunit \<Rightarrow> bool" where
  "isEscaped c \<longleftrightarrow> c < 32 \<or> c = 34 \<or> c = 92"

definition shortEscape :: "codeunit \<Rightarrow> codeunit option" where
  "shortEscape c =
     (if c = 8 then Some 98 else if c = 9 then Some 116 else if c = 10 then Some 110
      else if c = 12 then Some 102 else if c = 13 then Some 114 else if c = 34 then Some 34
      else if c = 92 then Some 92 else None)"

definition isPlain :: "codeunit \<Rightarrow> bool" where
  "isPlain c \<longleftrightarrow> \<not> isEscaped c \<and> \<not> isHighSurrogate c \<and> \<not> isLowSurrogate c"

definition QuoteJSONString :: "jsstring \<Rightarrow> jsstring" where
  "QuoteJSONString s = [34] @ quoteBody s @ [34]"

fun stringifyElements :: "jsstring list \<Rightarrow> jsstring" where
  "stringifyElements [] = []"
| "stringifyElements [x] = QuoteJSONString x"
| "stringifyElements (x # y # ys) = QuoteJSONString x @ [44] @ stringifyElements (y # ys)"

definition JSON_stringify :: "jsstring list \<Rightarrow> jsstring" where
  "JSON_stringify xs = [91] @ stringifyElements xs @ [93]"

section \<open>parseMessageContent\<close>

text \<open>
  \<open>parts[0]\<close> of an empty array would be \<open>undefined\<close>, and \<open>.trim()\<close> would throw;
  \<open>JSON.parse\<close> throws on a text that is not JSON, which the \<open>catch\<close> swallows.
  \<open>suggestions\<close> is whatever value the text parses to.
\<close>

definition parseMessageContent :: "jsstring \<Rightarrow> (jsstring \<times> json) outcome" where
  "parseMessageContent content =
     (let parts = split SUGGESTIONS_DELIMITER content
      in case parts of
           [] \<Rightarrow> Throws
         | p0 # rest \<Rightarrow>
             (let cleanText = trim p0;
                  suggestions = (case rest of
                                   [] \<Rightarrow> JArray []
                                 | p1 # others \<Rightarrow>
                                     (case JSON_parse (trim p1) of
                                        None \<Rightarrow> JArray []
                                      | Some v \<Rightarrow> v))
              in Returns (cleanText, suggestions)))"

text \<open>
  \<open>p\<close>, followed by \<open>t\<close>, is a piece that \<open>split\<close> cuts off: it ends at the end of the
  text or at an occurrence of the separator, and no occurrence begins inside it.
\<close>

definition isPiece :: "jsstring \<Rightarrow> jsstring \<Rightarrow> jsstring \<Rightarrow> bool" where
  "isPiece sep p t \<longleftrightarrow>
     (t = [] \<and> \<not> sublist sep p) \<or> (prefix sep t \<and> \<not> sublist sep (p @ butlast sep))"

subsection \<open>A concrete project\<close>

text \<open>
  A state with one earlier critic message and a draft, and an environment whose router
  answers \<open>chief\<close> and whose other gateway calls throw unless a scenario replaces them.
\<close>

definition exampleState :: editor_state where
  "exampleState =
     \<lparr>messages = [\<lparr>msgId = utf16 ''m0'', role = Model, msgText = utf16 ''weak opening'',
                   timestamp = 0, isThinking = Some False, agentId = Some EDITOR\<rparr>],
      inputValue = [], isProcessing = False, draftContent = utf16 ''draft'',
      researchNotes = [], projectTopic = utf16 ''topic'', selectedPersona = None, calls = []\<rparr>"

definition exampleEnv :: turn_env where
  "exampleEnv =
     \<lparr>userUUID = utf16 ''u1'', aiUUID = utf16 ''a1'', userNow = 1, aiNow = 2,
      lowerCase = asciiLowerCase, topicReply = Throws,
      routerReply = Returns (Some (utf16 ''chief'')),
      fixesReply = Returns (Some (utf16 ''fixed'')), researchReply = Throws,
      executeReply = Throws, critiqueReply = Throws, chatReply = Throws\<rparr>"


text \<open>A display text with white space around it, and chips that need escaping.\<close>

definition pickOne :: jsstring where
  "pickOne = [32] @ utf16 ''Pick one:'' @ [10, 10]"

definition quotedChips :: "jsstring list" where
  "quotedChips = [utf16 ''say '' @ [34] @ utf16 ''hi'' @ [34], utf16 ''a:::b'', [0xD83D, 0xDE00, 9, 0xDC00]]"

text \<open>The confirmation text as displayed, and its suggestion chips.\<close>

definition FIX_DONE_CLEAN :: jsstring where
  "FIX_DONE_CLEAN =
     [0x2705, 32, 0x5DF2, 0x6839, 0x636E, 0x6BD2, 0x820C, 0x4E3B, 0x7F16, 0x7684, 0x610F, 0x89C1,
      0x5B8C, 0x6210, 0x4FEE, 0x6539, 0xFF0C, 0x5E76, 0x81EA, 0x52A8, 0x66F4, 0x65B0, 0x4E86,
      0x53F3, 0x4FA7, 0x8349, 0x7A3F, 0x3002, 10, 10,
      0x4F60, 0x53EF, 0x4EE5, 0x68C0, 0x67E5, 0x4E00, 0x4E0B, 0xFF0C, 0x6216, 0x8005, 0x7EE7,
      0x7EED, 0x8FDB, 0x884C, 0x4E0B, 0x4E00, 0x6B65, 0x3002]"

definition FIX_DONE_CHIPS :: "jsstring list" where
  "FIX_DONE_CHIPS =
     [[0x7EE7, 0x7EED, 0x5B8C, 0x5584, 0x8349, 0x7A3F],
      [0x518D, 0x6B21, 0x8BC4, 0x5BA1],
      [0x5B8C, 0x6210, 0x9879, 0x76EE]]"

section \<open>The Agent Router\<close>

lemma find_allowed_None:
  "x \<notin> set (map RoleId_value ALLOWED_AGENTS) \<Longrightarrow> find (\<lambda>r. RoleId_value r = x) ALLOWED_AGENTS = None"
  by (auto simp: ALLOWED_AGENTS_def)

lemma chief_allowed: "find (\<lambda>r. RoleId_value r = RoleId_value CHIEF) ALLOWED_AGENTS = Some CHIEF"
  by (simp add: ALLOWED_AGENTS_def)

lemma find_allowed_Some: "find (\<lambda>r. RoleId_value r = x) ALLOWED_AGENTS = Some r \<Longrightarrow> r \<in> set ALLOWED_AGENTS"
  by (auto simp: find_Some_iff)

lemma determineNextAgent_cases:
  "determineNextAgent f Throws = Returns CHIEF"
  "determineNextAgent f (Returns None) = Returns CHIEF"
  "determineNextAgent f (Returns (Some t)) =
     (case find (\<lambda>r. RoleId_value r = (if normalizeReply f t = [] then RoleId_value CHIEF else normalizeReply f t)) ALLOWED_AGENTS
      of Some r \<Rightarrow> Returns r | None \<Rightarrow> Returns CHIEF)"
  using chief_allowed by (simp_all add: determineNextAgent_def Let_def del: RoleId_value.simps)

lemma determineNextAgent_allowed:
  "\<exists>r. determineNextAgent f reply = Returns r \<and> r \<in> set ALLOWED_AGENTS"
proof (cases reply)
  case Throws
  then show ?thesis by (simp add: determineNextAgent_cases ALLOWED_AGENTS_def)
next
  case (Returns x)
  show ?thesis
  proof (cases x)
    case None
    with Returns show ?thesis by (simp add: determineNextAgent_cases ALLOWED_AGENTS_def)
  next
    case (Some t)
    let ?x = "if normalizeReply f t = [] then RoleId_value CHIEF else normalizeReply f t"
    show ?thesis
    proof (cases "find (\<lambda>r. RoleId_value r = ?x) ALLOWED_AGENTS")
      case None
      with Returns Some show ?thesis by (simp add: determineNextAgent_cases ALLOWED_AGENTS_def)
    next
      case (Some r)
      with Returns \<open>x = Some t\<close> find_allowed_Some[OF Some] show ?thesis
        by (simp add: determineNextAgent_cases)
    qed
  qed
qed

text \<open>
  Claim C4. Whatever the gateway does, \<open>determineNextAgent\<close> returns (it never
  throws), and what it returns is one of the four allowed identities. When the gateway
  call throws, when the response carries no text, or when the normalized text (trimmed,
  lower-cased, double quotes removed) is not one of the four allowed identity strings
  (the empty string, \<open>polisher\<close> and arbitrary strings among them), it returns
  \<open>CHIEF\<close>.
\<close>

theorem determineNextAgent_default:
  "(\<exists>r. determineNextAgent toLowerCase reply = Returns r \<and> r \<in> set ALLOWED_AGENTS) \<and>
   (reply = Throws \<or> reply = Returns None \<or>
    (\<exists>t. reply = Returns (Some t) \<and>
         normalizeReply toLowerCase t \<notin> set (map RoleId_value ALLOWED_AGENTS))
    \<longrightarrow> determineNextAgent toLowerCase reply = Returns CHIEF)"
proof (intro conjI impI)
  show "\<exists>r. determineNextAgent toLowerCase reply = Returns r \<and> r \<in> set ALLOWED_AGENTS"
    by (rule determineNextAgent_allowed)
next
  assume a: "reply = Throws \<or> reply = Returns None \<or>
    (\<exists>t. reply = Returns (Some t) \<and>
         normalizeReply toLowerCase t \<notin> set (map RoleId_value ALLOWED_AGENTS))"
  show "determineNextAgent toLowerCase reply = Returns CHIEF"
  proof -
    consider "reply = Throws" | "reply = Returns None"
      | t where "reply = Returns (Some t)" "normalizeReply toLowerCase t \<notin> set (map RoleId_value ALLOWED_AGENTS)"
      using a by blast
    then show ?thesis
    proof cases
      case 1 then show ?thesis by (simp add: determineNextAgent_cases)
    next
      case 2 then show ?thesis by (simp add: determineNextAgent_cases)
    next
      case 3
      show ?thesis
      proof (cases "normalizeReply toLowerCase t = []")
        case True
        with 3 show ?thesis using chief_allowed by (simp add: determineNextAgent_cases del: RoleId_value.simps)
      next
        case False
        with 3 find_allowed_None[OF 3(2)] show ?thesis by (simp add: determineNextAgent_cases del: RoleId_value.simps)
      qed
    qed
  qed
qed

lemma norm_polisher: "normalizeReply asciiLowerCase (utf16 '' \"Polisher\"'' @ [10]) = utf16 ''polisher''"
  by (simp add: normalizeReply_def asciiLowerCase_def utf16_def trim_def trimStart_def trimEnd_def isWhiteSpace_def)

lemma polisher_not_allowed: "utf16 ''polisher'' \<notin> set (map RoleId_value ALLOWED_AGENTS)"
  by (simp add: ALLOWED_AGENTS_def utf16_def)

theorem determineNextAgent_default_witness:
  "normalizeReply asciiLowerCase (utf16 '' \"Polisher\"'' @ [10]) = utf16 ''polisher'' \<and>
   utf16 ''polisher'' \<notin> set (map RoleId_value ALLOWED_AGENTS) \<and>
   determineNextAgent asciiLowerCase (Returns (Some (utf16 '' \"Polisher\"'' @ [10]))) = Returns CHIEF \<and>
   determineNextAgent asciiLowerCase (Returns (Some [])) = Returns CHIEF \<and>
   determineNextAgent asciiLowerCase (Returns (Some (utf16 ''hello there''))) = Returns CHIEF \<and>
   determineNextAgent asciiLowerCase Throws = Returns CHIEF"
proof -
  have e: "normalizeReply asciiLowerCase [] = []"
    by (simp add: normalizeReply_def asciiLowerCase_def trim_def trimStart_def trimEnd_def)
  have h: "normalizeReply asciiLowerCase (utf16 ''hello there'') = utf16 ''hello there''"
    by (simp add: normalizeReply_def asciiLowerCase_def utf16_def trim_def trimStart_def trimEnd_def isWhiteSpace_def)
  have hn: "utf16 ''hello there'' \<notin> set (map RoleId_value ALLOWED_AGENTS)"
    by (simp add: ALLOWED_AGENTS_def utf16_def)
  have en: "[] \<notin> set (map RoleId_value ALLOWED_AGENTS)"
    by (simp add: ALLOWED_AGENTS_def utf16_def)
  show ?thesis
    using determineNextAgent_default[of asciiLowerCase "Returns (Some (utf16 '' \"Polisher\"'' @ [10]))"]
      determineNextAgent_default[of asciiLowerCase "Returns (Some [])"]
      determineNextAgent_default[of asciiLowerCase "Returns (Some (utf16 ''hello there''))"]
      determineNextAgent_default[of asciiLowerCase Throws]
      norm_polisher polisher_not_allowed e h hn en
    by simp
qed

section \<open>The turn handler\<close>

lemma trim_ONE_CLICK_FIX: "trim ONE_CLICK_FIX \<noteq> []"
  by (simp add: ONE_CLICK_FIX_def trim_def trimStart_def trimEnd_def isWhiteSpace_def)

lemma calls_catchBlock [simp]: "calls (catchBlock cur) = calls cur"
  by (simp add: catchBlock_def)

lemma calls_startTopicExtraction [simp]:
  "calls (startTopicExtraction env t cur) = calls cur @ [CallExtractTopic t]"
  by (simp add: startTopicExtraction_def Let_def split: outcome.splits)

lemma messages_startTopicExtraction [simp]:
  "messages (startTopicExtraction env t cur) = messages cur"
  by (simp add: startTopicExtraction_def Let_def split: outcome.splits)

lemma calls_consumeStream [simp]: "calls (fst (consumeStream a reply cur)) = calls cur"
  by (simp add: consumeStream_def split: outcome.splits)

lemma calls_oneClickFix:
  "calls (fst (oneClickFix env st cur)) =
     calls cur @ [CallApplyEditorFixes (draftContent st) (lastCritiqueText (messages st)) (selectedPersona st)]"
  by (simp add: oneClickFix_def Let_def split: outcome.splits)

lemma calls_beginTurn: "calls (beginTurn env text st) = calls st @ topicCalls text st"
  by (simp add: beginTurn_def Let_def topicCalls_def)

lemma messages_beginTurn: "messages (beginTurn env text st) = messages st @ [userMsg env text]"
  by (simp add: beginTurn_def Let_def)

lemma calls_endTurn: "calls (endTurn r) = calls (fst r)"
  by (cases r) (simp add: endTurn_def)

lemma isProcessing_endTurn: "isProcessing (endTurn r) = False"
  by (cases r) (simp add: endTurn_def)

lemma tryBlock_special: "tryBlock env st ONE_CLICK_FIX cur = oneClickFix env st cur"
  by (simp add: tryBlock_def)

lemma handleSend_special:
  assumes "textToSend ov st = ONE_CLICK_FIX"
  shows "handleSend env ov st = endTurn (oneClickFix env st (beginTurn env ONE_CLICK_FIX st))"
  using assms trim_ONE_CLICK_FIX by (simp add: handleSend_def Let_def tryBlock_special)

lemma calls_handleSend_special:
  assumes "textToSend ov st = ONE_CLICK_FIX"
  shows "calls (handleSend env ov st) =
           calls st @ topicCalls ONE_CLICK_FIX st @
           [CallApplyEditorFixes (draftContent st) (lastCritiqueText (messages st)) (selectedPersona st)]"
  by (simp add: handleSend_special[OF assms] calls_endTurn calls_oneClickFix calls_beginTurn)

lemma isRouterCall_topicCalls [simp]: "filter isRouterCall (topicCalls text st) = []"
  by (simp add: topicCalls_def)

text \<open>
  Claim C3. When the text to send is the special-command literal, the service calls of
  the turn are the topic extraction (on a first turn) and one call of
  \<open>applyEditorFixes\<close>: \<open>determineNextAgent\<close> is called zero times.
\<close>

theorem special_command_bypasses_router:
  assumes "textToSend ov st = ONE_CLICK_FIX"
  shows "calls (handleSend env ov st) = calls st @ turnCalls env ov st \<and>
         turnCalls env ov st =
           topicCalls ONE_CLICK_FIX st @
           [CallApplyEditorFixes (draftContent st) (lastCritiqueText (messages st)) (selectedPersona st)] \<and>
         length (filter isRouterCall (turnCalls env ov st)) = 0"
proof -
  let ?fix = "CallApplyEditorFixes (draftContent st) (lastCritiqueText (messages st)) (selectedPersona st)"
  have c: "calls (handleSend env ov st) = calls st @ topicCalls ONE_CLICK_FIX st @ [?fix]"
    using assms by (rule calls_handleSend_special)
  then have t: "turnCalls env ov st = topicCalls ONE_CLICK_FIX st @ [?fix]"
    by (simp add: turnCalls_def)
  have "filter isRouterCall (topicCalls ONE_CLICK_FIX st @ [?fix]) = []"
    by simp
  with c t show ?thesis by simp
qed

subsection \<open>Routed turns\<close>

lemma tryBlock_routed:
  assumes "text \<noteq> ONE_CLICK_FIX"
    and "determineNextAgent (lowerCase env) (routerReply env) = Returns a"
  shows "tryBlock env st text cur =
           dispatch env st text a
             (cur\<lparr>calls := calls cur @ [CallDetermineNextAgent (historyOf (messages st)) text],
                  messages := messages cur @ [placeholder (aiUUID env) a [] (aiNow env)]\<rparr>)"
  using assms by (simp add: tryBlock_def Let_def)

lemma handleSend_routed:
  assumes "trim (textToSend ov st) \<noteq> []" and "textToSend ov st \<noteq> ONE_CLICK_FIX"
    and "determineNextAgent (lowerCase env) (routerReply env) = Returns a"
  shows "handleSend env ov st =
           endTurn (dispatch env st (textToSend ov st) a
             ((beginTurn env (textToSend ov st) st)
                \<lparr>calls := calls st @ topicCalls (textToSend ov st) st @
                            [CallDetermineNextAgent (historyOf (messages st)) (textToSend ov st)],
                 messages := messages st @ [userMsg env (textToSend ov st),
                                            placeholder (aiUUID env) a [] (aiNow env)]\<rparr>))"
  using assms
  by (simp add: handleSend_def Let_def tryBlock_routed calls_beginTurn messages_beginTurn)

lemma last_updateAiMessage:
  "last (updateAiMessage a t (ms @ [placeholder a agent t0 now])) =
     (placeholder a agent t0 now)\<lparr>msgText := t, isThinking := Some False\<rparr>"
  by (simp add: updateAiMessage_def placeholder_def)

lemma updateAiMessage_twice [simp]:
  "updateAiMessage a t2 (updateAiMessage a t1 ms) = updateAiMessage a t2 ms"
  by (simp add: updateAiMessage_def)

lemma length_updateAiMessage [simp]: "length (updateAiMessage a t ms) = length ms"
  by (simp add: updateAiMessage_def)

lemma messages_endTurn_not_thrown:
  "how \<noteq> Thrown \<Longrightarrow> messages (endTurn (cur, how)) = messages cur"
  by (simp add: endTurn_def)


subsection \<open>The critic\<close>

lemma dispatch_editor_empty:
  assumes "contentToReview text (draftContent st) = []"
  shows "dispatch env st text EDITOR cur =
           (cur\<lparr>messages := updateAiMessage (aiUUID env) (NOTHING_TO_REVIEW (draftContent st)) (messages cur)\<rparr>,
            Normal)"
  using assms by (simp add: dispatch_def Let_def)

lemma dispatch_editor_nonempty:
  assumes "contentToReview text (draftContent st) \<noteq> []"
  shows "dispatch env st text EDITOR cur =
           consumeStream (aiUUID env) (critiqueDraft (critiqueReply env))
             (cur\<lparr>calls := calls cur @
                     [CallCritiqueDraft (contentToReview text (draftContent st)) (selectedPersona st)]\<rparr>)"
  using assms by (simp add: dispatch_def Let_def)

lemma isCritiqueCall_topicCalls [simp]: "filter isCritiqueCall (topicCalls text st) = []"
  by (simp add: topicCalls_def)

text \<open>
  Claim C7. On a turn routed to the critic, the content handed to \<open>critiqueDraft\<close> is
  the user message when it is longer than 50 code units and \<open>draftContent\<close>
  otherwise. When that content is empty, \<open>critiqueDraft\<close> is not called and the
  pending message is finalized with the literal reply.
\<close>

theorem critic_subject:
  assumes "trim (textToSend ov st) \<noteq> []" and "textToSend ov st \<noteq> ONE_CLICK_FIX"
    and "determineNextAgent (lowerCase env) (routerReply env) = Returns EDITOR"
  shows "contentToReview (textToSend ov st) (draftContent st) =
           (if length (textToSend ov st) > 50 then textToSend ov st else draftContent st) \<and>
         (contentToReview (textToSend ov st) (draftContent st) \<noteq> [] \<longrightarrow>
            filter isCritiqueCall (turnCalls env ov st) =
              [CallCritiqueDraft (contentToReview (textToSend ov st) (draftContent st)) (selectedPersona st)]) \<and>
         (contentToReview (textToSend ov st) (draftContent st) = [] \<longrightarrow>
            filter isCritiqueCall (turnCalls env ov st) = [] \<and>
            msgText (last (messages (handleSend env ov st))) = NOTHING_TO_REVIEW (draftContent st) \<and>
            isThinking (last (messages (handleSend env ov st))) = Some False)"
proof (intro conjI impI)
  let ?text = "textToSend ov st"
  let ?ms = "messages st @ [userMsg env ?text]"
  note hs = handleSend_routed[OF assms]
  show "contentToReview ?text (draftContent st) =
          (if length ?text > 50 then ?text else draftContent st)"
    by (simp add: contentToReview_def)
  {
    assume ne: "contentToReview ?text (draftContent st) \<noteq> []"
    show "filter isCritiqueCall (turnCalls env ov st) =
            [CallCritiqueDraft (contentToReview ?text (draftContent st)) (selectedPersona st)]"
      by (simp add: turnCalls_def hs dispatch_editor_nonempty[OF ne] calls_endTurn)
  }
  {
    assume e: "contentToReview ?text (draftContent st) = []"
    show "filter isCritiqueCall (turnCalls env ov st) = []"
      by (simp add: turnCalls_def hs dispatch_editor_empty[OF e] calls_endTurn)
    have m: "messages (handleSend env ov st) =
               updateAiMessage (aiUUID env) (NOTHING_TO_REVIEW (draftContent st))
                 (?ms @ [placeholder (aiUUID env) EDITOR [] (aiNow env)])"
      by (simp add: hs dispatch_editor_empty[OF e] messages_endTurn_not_thrown)
    show "msgText (last (messages (handleSend env ov st))) = NOTHING_TO_REVIEW (draftContent st)"
      unfolding m last_updateAiMessage by simp
    show "isThinking (last (messages (handleSend env ov st))) = Some False"
      unfolding m last_updateAiMessage by simp
  }
qed

subsection \<open>Failure of the gateway\<close>








lemma pending_placeholder [simp]: "pending (placeholder a agent t now)"
  by (simp add: pending_def placeholder_def)



subsection \<open>Streaming\<close>

lemma length_streamStates: "length (streamStates a ft (streamOf incs) ms) = length incs"
  by (induction incs arbitrary: ft ms) (simp_all add: Let_def)

lemma streamStates_nth:
  "k < length incs \<Longrightarrow>
   streamStates a ft (streamOf incs) ms ! k = updateAiMessage a (ft @ concat (take (Suc k) incs)) ms"
proof (induction incs arbitrary: ft ms k)
  case Nil
  then show ?case by simp
next
  case (Cons t ts)
  show ?case
  proof (cases k)
    case 0
    then show ?thesis by (simp add: Let_def chunkText_def)
  next
    case (Suc j)
    with Cons.prems have "j < length ts" by simp
    from Cons.IH[OF this] Suc show ?thesis by (simp add: Let_def chunkText_def)
  qed
qed

lemma last_streamStates:
  "last (ms # streamStates a ft (streamOf incs) ms) =
     (if incs = [] then ms else updateAiMessage a (ft @ concat incs) ms)"
proof (cases "incs = []")
  case True
  then show ?thesis by simp
next
  case False
  then have n: "streamStates a ft (streamOf incs) ms \<noteq> []"
    using length_streamStates[of a ft incs ms] by auto
  have "last (streamStates a ft (streamOf incs) ms) =
          streamStates a ft (streamOf incs) ms ! (length incs - 1)"
    using n by (simp add: last_conv_nth length_streamStates)
  also have "\<dots> = updateAiMessage a (ft @ concat (take (Suc (length incs - 1)) incs)) ms"
    using False by (intro streamStates_nth) simp
  finally show ?thesis using False n by simp
qed

lemma streamCompletion_streamOf [simp]: "streamCompletion (streamOf incs) = Normal"
  by (induction incs) simp_all

lemma consumeStream_streamOf:
  "consumeStream a (Returns (streamOf incs)) cur =
     (cur\<lparr>messages := (if incs = [] then messages cur
                         else updateAiMessage a (concat incs) (messages cur))\<rparr>, Normal)"
  by (simp add: consumeStream_def last_streamStates del: last.simps)

lemma dispatch_streams:
  assumes "(a = EXECUTOR \<and> executeReply env = Returns s) \<or>
           (a = EDITOR \<and> contentToReview text (draftContent st) \<noteq> [] \<and> critiqueReply env = Returns s) \<or>
           (a = CHIEF \<and> chatReply env = Returns s)"
  shows "\<exists>c. dispatch env st text a cur =
           consumeStream (aiUUID env) (Returns s) (cur\<lparr>calls := calls cur @ [c]\<rparr>)"
  using assms
  by (auto simp: dispatch_def Let_def executeWriting_def critiqueDraft_def chatWithChief_def)

text \<open>
  Claim C1, as the code has it. While a stream of text increments is consumed, the
  message list after the increment number \<open>k + 1\<close> shows, in the turn's message, the
  concatenation of the first \<open>k + 1\<close> increments, and the message is not pending any
  more: \<open>isThinking\<close> is true before the first increment is applied and false after
  every increment, the first included. When the stream has ended the text is the
  concatenation of all increments. The last part states the same for a whole turn routed
  to one of the three streaming agents.
\<close>

theorem streamed_text_assembly:
  "length (streamStates a [] (streamOf incs) (old @ [placeholder a agent [] now])) = length incs \<and>
   isThinking (last (old @ [placeholder a agent [] now])) = Some True \<and>
   (\<forall>k < length incs.
      msgText (last (streamStates a [] (streamOf incs) (old @ [placeholder a agent [] now]) ! k)) =
        concat (take (Suc k) incs) \<and>
      isThinking (last (streamStates a [] (streamOf incs) (old @ [placeholder a agent [] now]) ! k)) =
        Some False) \<and>
   msgText (last (last ((old @ [placeholder a agent [] now]) #
       streamStates a [] (streamOf incs) (old @ [placeholder a agent [] now])))) = concat incs \<and>
   (trim (textToSend ov st) \<noteq> [] \<and> textToSend ov st \<noteq> ONE_CLICK_FIX \<and>
    determineNextAgent (lowerCase env) (routerReply env) = Returns r \<and>
    ((r = EXECUTOR \<and> executeReply env = Returns (streamOf incs)) \<or>
     (r = EDITOR \<and> contentToReview (textToSend ov st) (draftContent st) \<noteq> [] \<and>
        critiqueReply env = Returns (streamOf incs)) \<or>
     (r = CHIEF \<and> chatReply env = Returns (streamOf incs))) \<longrightarrow>
      msgText (last (messages (handleSend env ov st))) = concat incs \<and>
      isThinking (last (messages (handleSend env ov st))) = (if incs = [] then Some True else Some False))"
proof (intro conjI allI impI)
  let ?ms = "old @ [placeholder a agent [] now]"
  show "length (streamStates a [] (streamOf incs) ?ms) = length incs"
    by (rule length_streamStates)
  show "isThinking (last ?ms) = Some True"
    by (simp add: placeholder_def)
  show "msgText (last (last (?ms # streamStates a [] (streamOf incs) ?ms))) = concat incs"
    unfolding last_streamStates by (simp add: last_updateAiMessage) (simp add: placeholder_def)
  {
    fix k assume k: "k < length incs"
    show "msgText (last (streamStates a [] (streamOf incs) ?ms ! k)) = concat (take (Suc k) incs)"
      unfolding streamStates_nth[OF k] last_updateAiMessage by simp
    show "isThinking (last (streamStates a [] (streamOf incs) ?ms ! k)) = Some False"
      unfolding streamStates_nth[OF k] last_updateAiMessage by simp
  }
  {
    let ?text = "textToSend ov st"
    assume h: "trim ?text \<noteq> [] \<and> ?text \<noteq> ONE_CLICK_FIX \<and>
      determineNextAgent (lowerCase env) (routerReply env) = Returns r \<and>
      ((r = EXECUTOR \<and> executeReply env = Returns (streamOf incs)) \<or>
       (r = EDITOR \<and> contentToReview ?text (draftContent st) \<noteq> [] \<and>
          critiqueReply env = Returns (streamOf incs)) \<or>
       (r = CHIEF \<and> chatReply env = Returns (streamOf incs)))"
    let ?cur = "(beginTurn env ?text st)
                \<lparr>calls := calls st @ topicCalls ?text st @
                            [CallDetermineNextAgent (historyOf (messages st)) ?text],
                 messages := messages st @ [userMsg env ?text,
                                            placeholder (aiUUID env) r [] (aiNow env)]\<rparr>"
    have hr: "handleSend env ov st = endTurn (dispatch env st ?text r ?cur)"
      using h by (simp add: handleSend_routed)
    from h obtain c where
      d: "dispatch env st ?text r ?cur =
            consumeStream (aiUUID env) (Returns (streamOf incs)) (?cur\<lparr>calls := calls ?cur @ [c]\<rparr>)"
      using dispatch_streams[of r env "streamOf incs" ?text st ?cur] by blast
    have m: "messages (handleSend env ov st) =
        (if incs = [] then (messages st @ [userMsg env ?text]) @ [placeholder (aiUUID env) r [] (aiNow env)]
         else updateAiMessage (aiUUID env) (concat incs)
                ((messages st @ [userMsg env ?text]) @ [placeholder (aiUUID env) r [] (aiNow env)]))"
      unfolding hr d consumeStream_streamOf by (simp add: messages_endTurn_not_thrown)
    show "msgText (last (messages (handleSend env ov st))) = concat incs"
      unfolding m by (cases "incs = []") (simp_all add: last_updateAiMessage del: append_assoc, simp add: placeholder_def)
    show "isThinking (last (messages (handleSend env ov st))) = (if incs = [] then Some True else Some False)"
      unfolding m by (cases "incs = []") (simp_all add: last_updateAiMessage del: append_assoc, simp add: placeholder_def)
  }
qed

section \<open>Concrete turns\<close>

lemma dropWhile_all_iff:
  "(\<forall>c \<in> set (dropWhile P s). P c) \<longleftrightarrow> dropWhile P s = []"
proof
  assume a: "\<forall>c \<in> set (dropWhile P s). P c"
  show "dropWhile P s = []"
  proof (rule ccontr)
    assume n: "dropWhile P s \<noteq> []"
    then have "\<not> P (hd (dropWhile P s))" by (rule hd_dropWhile)
    moreover have "hd (dropWhile P s) \<in> set (dropWhile P s)" using n by simp
    ultimately show False using a by blast
  qed
qed (auto dest: set_dropWhileD)

lemma trim_eq_Nil_iff: "trim s = [] \<longleftrightarrow> (\<forall>c \<in> set s. isWhiteSpace c)"
  using dropWhile_all_iff[of isWhiteSpace s] by (simp add: trim_def trimEnd_def trimStart_def)

lemma route_chief: "determineNextAgent asciiLowerCase (Returns (Some (utf16 ''chief''))) = Returns CHIEF"
  by (simp add: determineNextAgent_cases normalizeReply_def asciiLowerCase_def utf16_def trim_def
      trimStart_def trimEnd_def isWhiteSpace_def ALLOWED_AGENTS_def)

lemma route_editor: "determineNextAgent asciiLowerCase (Returns (Some (utf16 ''Editor''))) = Returns EDITOR"
  by (simp add: determineNextAgent_cases normalizeReply_def asciiLowerCase_def utf16_def trim_def
      trimStart_def trimEnd_def isWhiteSpace_def ALLOWED_AGENTS_def)

text \<open>The special command sent as a suggestion chip, after one critic message.\<close>

theorem special_command_bypasses_router_witness:
  "textToSend (Some ONE_CLICK_FIX) exampleState = ONE_CLICK_FIX \<and>
   turnCalls exampleEnv (Some ONE_CLICK_FIX) exampleState =
     [CallApplyEditorFixes (utf16 ''draft'') (utf16 ''weak opening'') None] \<and>
   length (filter isRouterCall (turnCalls exampleEnv (Some ONE_CLICK_FIX) exampleState)) = 0"
proof -
  have h: "textToSend (Some ONE_CLICK_FIX) exampleState = ONE_CLICK_FIX"
    by (simp add: textToSend_def ONE_CLICK_FIX_def)
  have c: "lastCritiqueText (messages exampleState) = utf16 ''weak opening''"
    by (simp add: lastCritiqueText_def exampleState_def)
  have t: "topicCalls ONE_CLICK_FIX exampleState = []"
    by (simp add: topicCalls_def exampleState_def utf16_def)
  show ?thesis
    using special_command_bypasses_router[OF h, of exampleEnv] h c t
    by (simp add: exampleState_def)
qed

lemma pasted_text: "trim (replicate 80 97) \<noteq> [] \<and> replicate 80 97 \<noteq> ONE_CLICK_FIX \<and>
    length (replicate 80 (97::nat)) = 80"
proof -
  have "length (replicate 80 (97::nat)) \<noteq> length ONE_CLICK_FIX" by (simp add: ONE_CLICK_FIX_def)
  then have "replicate 80 97 \<noteq> ONE_CLICK_FIX" by metis
  then show ?thesis by (simp add: trim_eq_Nil_iff isWhiteSpace_def)
qed

text \<open>
  Scenario C: 80 code units of pasted text are what the critic is given; a short request
  with an empty draft gets the literal reply.
\<close>

theorem critic_subject_witness:
  "length (replicate 80 (97::nat)) = 80 \<and>
   filter isCritiqueCall
     (turnCalls (exampleEnv\<lparr>routerReply := Returns (Some (utf16 ''Editor''))\<rparr>)
        (Some (replicate 80 97)) exampleState) =
     [CallCritiqueDraft (replicate 80 97) None] \<and>
   filter isCritiqueCall
     (turnCalls (exampleEnv\<lparr>routerReply := Returns (Some (utf16 ''Editor''))\<rparr>)
        (Some (utf16 ''review'')) (exampleState\<lparr>draftContent := []\<rparr>)) = [] \<and>
   msgText (last (messages (handleSend (exampleEnv\<lparr>routerReply := Returns (Some (utf16 ''Editor''))\<rparr>)
        (Some (utf16 ''review'')) (exampleState\<lparr>draftContent := []\<rparr>)))) = NOTHING_TO_REVIEW []"
proof -
  let ?env = "exampleEnv\<lparr>routerReply := Returns (Some (utf16 ''Editor''))\<rparr>"
  have r: "determineNextAgent (lowerCase ?env) (routerReply ?env) = Returns EDITOR"
    by (simp add: exampleEnv_def route_editor)
  have t1: "textToSend (Some (replicate 80 97)) exampleState = replicate 80 97"
    by (simp add: textToSend_def)
  have t2: "textToSend (Some (utf16 ''review'')) (exampleState\<lparr>draftContent := []\<rparr>) = utf16 ''review''"
    by (simp add: textToSend_def utf16_def)
  have n2: "trim (utf16 ''review'') \<noteq> [] \<and> utf16 ''review'' \<noteq> ONE_CLICK_FIX \<and>
            \<not> length (utf16 ''review'') > 50"
    by (simp add: trim_eq_Nil_iff isWhiteSpace_def utf16_def ONE_CLICK_FIX_def)
  have c1: "contentToReview (replicate 80 97) (draftContent exampleState) = replicate 80 97"
    by (simp add: contentToReview_def)
  have c2: "contentToReview (utf16 ''review'') [] = []"
    using n2 by (simp add: contentToReview_def)
  have p: "selectedPersona exampleState = None" by (simp add: exampleState_def)
  show ?thesis
    using critic_subject[of "Some (replicate 80 97)" exampleState ?env]
      critic_subject[of "Some (utf16 ''review'')" "exampleState\<lparr>draftContent := []\<rparr>" ?env]
      r t1 t2 n2 c1 c2 p pasted_text
    by simp
qed

lemma hello_text: "trim (utf16 ''hello'') \<noteq> [] \<and> utf16 ''hello'' \<noteq> ONE_CLICK_FIX"
  by (simp add: trim_eq_Nil_iff isWhiteSpace_def utf16_def ONE_CLICK_FIX_def)



text \<open>A stream of three increments, and the state after the second.\<close>

theorem streamed_text_assembly_witness:
  "length (streamStates (utf16 ''a1'') [] (streamOf [utf16 ''Hel'', utf16 ''lo'', utf16 ''!''])
      [placeholder (utf16 ''a1'') CHIEF [] 2]) = 3 \<and>
   msgText (last (streamStates (utf16 ''a1'') [] (streamOf [utf16 ''Hel'', utf16 ''lo'', utf16 ''!''])
      [placeholder (utf16 ''a1'') CHIEF [] 2] ! 1)) = utf16 ''Hello'' \<and>
   isThinking (last (streamStates (utf16 ''a1'') [] (streamOf [utf16 ''Hel'', utf16 ''lo'', utf16 ''!''])
      [placeholder (utf16 ''a1'') CHIEF [] 2] ! 1)) = Some False \<and>
   msgText (last (messages (handleSend
      (exampleEnv\<lparr>chatReply := Returns (streamOf [utf16 ''Hel'', utf16 ''lo'', utf16 ''!''])\<rparr>)
      (Some (utf16 ''hello'')) exampleState))) = utf16 ''Hello!'' \<and>
   isThinking (last (messages (handleSend
      (exampleEnv\<lparr>chatReply := Returns (streamOf [utf16 ''Hel'', utf16 ''lo'', utf16 ''!''])\<rparr>)
      (Some (utf16 ''hello'')) exampleState))) = Some False"
proof -
  let ?incs = "[utf16 ''Hel'', utf16 ''lo'', utf16 ''!'']"
  let ?env = "exampleEnv\<lparr>chatReply := Returns (streamOf ?incs)\<rparr>"
  have t: "textToSend (Some (utf16 ''hello'')) exampleState = utf16 ''hello''"
    by (simp add: textToSend_def utf16_def)
  have r: "determineNextAgent (lowerCase ?env) (routerReply ?env) = Returns CHIEF"
    by (simp add: exampleEnv_def route_chief)
  have c: "chatReply ?env = Returns (streamOf ?incs)" by simp
  have u: "concat (take (Suc 1) ?incs) = utf16 ''Hello''" "concat ?incs = utf16 ''Hello!''"
    by (simp_all add: utf16_def)
  from streamed_text_assembly[of "utf16 ''a1''" ?incs "[]" CHIEF 2 "Some (utf16 ''hello'')"
      exampleState ?env CHIEF]
  have a: "length (streamStates (utf16 ''a1'') [] (streamOf ?incs) [placeholder (utf16 ''a1'') CHIEF [] 2])
             = length ?incs"
    and b: "\<forall>k < length ?incs.
      msgText (last (streamStates (utf16 ''a1'') [] (streamOf ?incs) [placeholder (utf16 ''a1'') CHIEF [] 2] ! k)) =
        concat (take (Suc k) ?incs) \<and>
      isThinking (last (streamStates (utf16 ''a1'') [] (streamOf ?incs) [placeholder (utf16 ''a1'') CHIEF [] 2] ! k)) =
        Some False"
    and d: "msgText (last (messages (handleSend ?env (Some (utf16 ''hello'')) exampleState))) = concat ?incs \<and>
      isThinking (last (messages (handleSend ?env (Some (utf16 ''hello'')) exampleState))) =
        (if ?incs = [] then Some True else Some False)"
    using t r c hello_text by simp_all
  from b have b1: "msgText (last (streamStates (utf16 ''a1'') [] (streamOf ?incs) [placeholder (utf16 ''a1'') CHIEF [] 2] ! 1)) =
        concat (take (Suc 1) ?incs) \<and>
      isThinking (last (streamStates (utf16 ''a1'') [] (streamOf ?incs) [placeholder (utf16 ''a1'') CHIEF [] 2] ! 1)) =
        Some False"
    by simp
  show ?thesis using a b1 d u by simp
qed

text \<open>
  The claim that the message stays pending until the last increment fails: of two
  increments, the first already clears \<open>isThinking\<close>, while the text is still partial.
\<close>

theorem pending_flag_counterexample:
  "length (streamStates (utf16 ''a1'') [] (streamOf [utf16 ''Hel'', utf16 ''lo''])
      [placeholder (utf16 ''a1'') CHIEF [] 2]) = 2 \<and>
   msgText (last (streamStates (utf16 ''a1'') [] (streamOf [utf16 ''Hel'', utf16 ''lo''])
      [placeholder (utf16 ''a1'') CHIEF [] 2] ! 0)) = utf16 ''Hel'' \<and>
   isThinking (last (streamStates (utf16 ''a1'') [] (streamOf [utf16 ''Hel'', utf16 ''lo''])
      [placeholder (utf16 ''a1'') CHIEF [] 2] ! 0)) = Some False"
  by (simp add: Let_def updateAiMessage_def placeholder_def chunkText_def)

section \<open>Removing the code fences\<close>











lemma trim_Nil [simp]: "trim [] = []"
  by (simp add: trim_def trimEnd_def trimStart_def)



lemma draftContent_endTurn: "draftContent (endTurn r) = draftContent (fst r)"
  by (cases r) (simp add: endTurn_def catchBlock_def)

lemma draftContent_oneClickFix:
  "applyEditorFixes (fixesReply env) = Returns result \<Longrightarrow>
   draftContent (fst (oneClickFix env st cur)) = (if result \<noteq> [] then result else draftContent st)"
  by (simp add: oneClickFix_def Let_def)




declare parseElements.simps [simp del] parseMembers.simps [simp del]

section \<open>JSON.parse after JSON.stringify\<close>

lemma hexValue_hexDigit: "d < 16 \<Longrightarrow> hexValue (hexDigit d) = Some d"
  by (auto simp: hexValue_def hexDigit_def isDigit_def)

lemma hex_recompose:
  assumes "c < 65536"
  shows "((c div 4096 mod 16 * 16 + c div 256 mod 16) * 16 + c div 16 mod 16) * 16 + c mod 16 = (c::nat)"
proof -
  define q1 where "q1 = c div 16"
  define q2 where "q2 = q1 div 16"
  define q3 where "q3 = q2 div 16"
  define r0 where "r0 = c mod 16"
  define r1 where "r1 = q1 mod 16"
  define r2 where "r2 = q2 mod 16"
  have 1: "c = 16 * q1 + r0" by (simp add: q1_def r0_def)
  have 2: "q1 = 16 * q2 + r1" by (simp add: q2_def r1_def)
  have 3: "q2 = 16 * q3 + r2" by (simp add: q3_def r2_def)
  have q2': "c div 256 = q2" by (simp add: q2_def q1_def div_mult2_eq)
  have q3': "c div 4096 = q3" by (simp add: q3_def q2_def q1_def div_mult2_eq)
  have "q3 < 16" using assms unfolding q3'[symmetric] by (simp add: less_mult_imp_div_less)
  then have m: "q3 mod 16 = q3" by simp
  have "((q3 * 16 + r2) * 16 + r1) * 16 + r0 = c"
    using 1 2 3 by simp
  then show ?thesis
    unfolding q3' q2' m r0_def[symmetric] r2_def[symmetric] q1_def[symmetric] r1_def[symmetric] .
qed

lemma parseString_unicodeEscape:
  assumes "c < 65536"
  shows "parseString (unicodeEscape c @ t) = consChar c (parseString t)"
proof -
  have d: "c div 4096 mod 16 < 16" "c div 256 mod 16 < 16" "c div 16 mod 16 < 16" "c mod 16 < 16"
    by simp_all
  have "parseString (unicodeEscape c @ t) =
        parseString (92 # 117 # hexDigit (c div 4096 mod 16) # hexDigit (c div 256 mod 16) #
          hexDigit (c div 16 mod 16) # hexDigit (c mod 16) # t)"
    by (simp add: unicodeEscape_def)
  also have "\<dots> =
        consChar (((c div 4096 mod 16 * 16 + c div 256 mod 16) * 16 + c div 16 mod 16) * 16 + c mod 16)
          (parseString t)"
    by (simp only: parseString.simps hexValue_hexDigit[OF d(1)] hexValue_hexDigit[OF d(2)]
        hexValue_hexDigit[OF d(3)] hexValue_hexDigit[OF d(4)] list.case option.case prod.case)
      simp
  finally show ?thesis by (simp only: hex_recompose[OF assms])
qed

text \<open>The cases of \<open>quoteBody\<close>.\<close>

lemma not_escaped_facts:
  "\<not> isEscaped c \<Longrightarrow>
   c \<noteq> 8 \<and> c \<noteq> 9 \<and> c \<noteq> 10 \<and> c \<noteq> 12 \<and> c \<noteq> 13 \<and> c \<noteq> 34 \<and> c \<noteq> 92 \<and> \<not> c < 32"
  unfolding isEscaped_def by linarith

lemma surrogate_not_escaped: "isHighSurrogate c \<or> isLowSurrogate c \<Longrightarrow> \<not> isEscaped c"
  unfolding isEscaped_def isHighSurrogate_def isLowSurrogate_def by linarith

lemma high_not_low: "isHighSurrogate c \<Longrightarrow> \<not> isLowSurrogate c"
  unfolding isHighSurrogate_def isLowSurrogate_def by linarith

lemma shortEscape_cases:
  "shortEscape c = Some e \<Longrightarrow>
   (c = 8 \<and> e = 98) \<or> (c = 9 \<and> e = 116) \<or> (c = 10 \<and> e = 110) \<or> (c = 12 \<and> e = 102) \<or>
   (c = 13 \<and> e = 114) \<or> (c = 34 \<and> e = 34) \<or> (c = 92 \<and> e = 92)"
  unfolding shortEscape_def by (simp split: if_split_asm)

lemma shortEscape_None:
  "shortEscape c = None \<Longrightarrow>
   c \<noteq> 8 \<and> c \<noteq> 9 \<and> c \<noteq> 10 \<and> c \<noteq> 12 \<and> c \<noteq> 13 \<and> c \<noteq> 34 \<and> c \<noteq> 92"
  unfolding shortEscape_def by (simp split: if_split_asm)

lemma quoteBody_short:
  assumes "shortEscape c = Some e"
  shows "quoteBody (c # cs) = 92 # e # quoteBody cs"
  using shortEscape_cases[OF assms] by (elim disjE conjE) simp_all

lemma shortEscape_escapeChar:
  assumes "shortEscape c = Some e"
  shows "escapeChar e = Some c \<and> e \<noteq> 117"
  using shortEscape_cases[OF assms] by (elim disjE conjE) (simp_all add: escapeChar_def)

lemma quoteBody_control:
  assumes "shortEscape c = None" and "c < 32"
  shows "quoteBody (c # cs) = unicodeEscape c @ quoteBody cs"
  using shortEscape_None[OF assms(1)] assms(2) by simp

lemma quoteBody_pair:
  assumes "isHighSurrogate c" and "isLowSurrogate d"
  shows "quoteBody (c # d # ds) = c # d # quoteBody ds"
  using not_escaped_facts[OF surrogate_not_escaped[of c]] assms by simp

lemma quoteBody_lone_high:
  assumes "isHighSurrogate c" and "case cs of [] \<Rightarrow> True | d # ds \<Rightarrow> \<not> isLowSurrogate d"
  shows "quoteBody (c # cs) = unicodeEscape c @ quoteBody cs"
  using not_escaped_facts[OF surrogate_not_escaped[of c]] assms by (cases cs) simp_all

lemma quoteBody_lone_low:
  assumes "isLowSurrogate c"
  shows "quoteBody (c # cs) = unicodeEscape c @ quoteBody cs"
  using not_escaped_facts[OF surrogate_not_escaped[of c]] assms high_not_low[of c] by auto

lemma quoteBody_literal:
  assumes "\<not> isEscaped c" and "\<not> isHighSurrogate c" and "\<not> isLowSurrogate c"
  shows "quoteBody (c # cs) = c # quoteBody cs"
  using not_escaped_facts[OF assms(1)] assms(2,3) by simp

lemma escaped_cases:
  "isEscaped c \<Longrightarrow> (\<exists>e. shortEscape c = Some e) \<or> (shortEscape c = None \<and> c < 32)"
  unfolding isEscaped_def shortEscape_def by (simp split: if_split) linarith

declare quoteBody.simps(2) [simp del]

lemma parseString_quoteBody: "parseString (quoteBody s @ 34 # rest) = Some (s, rest)"
proof (induction s rule: length_induct)
  case (1 s)
  show ?case
  proof (cases s)
    case Nil
    then show ?thesis by simp
  next
    case (Cons c cs)
    have ih: "parseString (quoteBody cs @ 34 # rest) = Some (cs, rest)"
      using "1.IH" Cons by simp
    consider (short) e where "shortEscape c = Some e"
      | (ctl) "shortEscape c = None" "c < 32"
      | (pair) d ds where "isHighSurrogate c" "cs = d # ds" "isLowSurrogate d"
      | (high) "isHighSurrogate c" "case cs of [] \<Rightarrow> True | d # ds \<Rightarrow> \<not> isLowSurrogate d"
      | (low) "isLowSurrogate c"
      | (lit) "\<not> isEscaped c" "\<not> isHighSurrogate c" "\<not> isLowSurrogate c"
    proof (cases "isEscaped c")
      case True
      then show ?thesis using escaped_cases short ctl by blast
    next
      case False
      then show ?thesis using pair high low lit by (cases cs) auto
    qed
    then show ?thesis
    proof cases
      case short
      from shortEscape_escapeChar[OF short] have "escapeChar e = Some c" "e \<noteq> 117" by simp_all
      then have "parseString (92 # e # quoteBody cs @ 34 # rest) = consChar c (parseString (quoteBody cs @ 34 # rest))"
        by simp
      then show ?thesis using Cons ih by (simp add: quoteBody_short[OF short] consChar_def)
    next
      case ctl
      then have "c < 65536" by simp
      from parseString_unicodeEscape[OF this, of "quoteBody cs @ 34 # rest"]
      show ?thesis using Cons ih by (simp add: quoteBody_control[OF ctl] consChar_def)
    next
      case pair
      have ihd: "parseString (quoteBody ds @ 34 # rest) = Some (ds, rest)"
        using "1.IH" Cons pair by simp
      from not_escaped_facts[OF surrogate_not_escaped[of c]] pair
      have c: "c \<noteq> 34" "c \<noteq> 92" "\<not> c < 32" by simp_all
      from not_escaped_facts[OF surrogate_not_escaped[of d]] pair
      have d: "d \<noteq> 34" "d \<noteq> 92" "\<not> d < 32" by simp_all
      have "parseString (c # d # quoteBody ds @ 34 # rest) =
              consChar c (consChar d (parseString (quoteBody ds @ 34 # rest)))"
        using c d by simp
      then show ?thesis
        using Cons pair ihd by (simp add: quoteBody_pair consChar_def)
    next
      case high
      then have "c < 65536" by (simp add: isHighSurrogate_def)
      from parseString_unicodeEscape[OF this, of "quoteBody cs @ 34 # rest"]
      show ?thesis using Cons ih by (simp add: quoteBody_lone_high[OF high] consChar_def)
    next
      case low
      then have "c < 65536" by (simp add: isLowSurrogate_def)
      from parseString_unicodeEscape[OF this, of "quoteBody cs @ 34 # rest"]
      show ?thesis using Cons ih by (simp add: quoteBody_lone_low[OF low] consChar_def)
    next
      case lit
      from not_escaped_facts[OF lit(1)]
      have c: "c \<noteq> 34" "c \<noteq> 92" "\<not> c < 32" by simp_all
      then have "parseString (c # quoteBody cs @ 34 # rest) =
              consChar c (parseString (quoteBody cs @ 34 # rest))"
        by simp
      then show ?thesis using Cons ih by (simp add: quoteBody_literal[OF lit] consChar_def)
    qed
  qed
qed

lemma parseValue_quoted:
  "parseValue (QuoteJSONString x @ rest) = Some (JString x, rest)"
  by (simp add: QuoteJSONString_def isJSONWhiteSpace_def parseString_quoteBody)

lemma length_QuoteJSONString: "length (QuoteJSONString x) > 0"
  by (simp add: QuoteJSONString_def)

lemma parseElements_step_comma:
  assumes "parseElements r' = Some (vs, r'')"
  shows "parseElements (QuoteJSONString x @ 44 # r') = Some (JString x # vs, r'')"
  using assms length_QuoteJSONString[of x]
  by (subst parseElements.simps) (simp add: parseValue_quoted skipWS_def isJSONWhiteSpace_def)

lemma parseElements_step_end:
  "parseElements (QuoteJSONString x @ 93 # rest) = Some ([JString x], rest)"
  using length_QuoteJSONString[of x]
  by (subst parseElements.simps) (simp add: parseValue_quoted skipWS_def isJSONWhiteSpace_def)

lemma parseElements_stringifyElements:
  "xs \<noteq> [] \<Longrightarrow> parseElements (stringifyElements xs @ 93 # rest) = Some (map JString xs, rest)"
proof (induction xs rule: stringifyElements.induct)
  case 1
  then show ?case by simp
next
  case (2 x)
  then show ?case by (simp add: parseElements_step_end)
next
  case (3 x y ys)
  then have "parseElements (stringifyElements (y # ys) @ 93 # rest) = Some (map JString (y # ys), rest)"
    by simp
  from parseElements_step_comma[OF this, of x] show ?case by simp
qed

lemma stringifyElements_head:
  "xs \<noteq> [] \<Longrightarrow> \<exists>t. stringifyElements xs = 34 # t"
  by (induction xs rule: stringifyElements.induct) (simp_all add: QuoteJSONString_def)

lemma parseValue_JSON_stringify:
  "parseValue (JSON_stringify xs @ rest) = Some (JArray (map JString xs), rest)"
proof (cases "xs = []")
  case True
  then show ?thesis by (simp add: JSON_stringify_def isJSONWhiteSpace_def skipWS_def)
next
  case False
  then obtain t where t: "stringifyElements xs = 34 # t" using stringifyElements_head by blast
  have "parseElements (stringifyElements xs @ 93 # rest) = Some (map JString xs, rest)"
    using False by (rule parseElements_stringifyElements)
  then show ?thesis
    using t by (simp add: JSON_stringify_def isJSONWhiteSpace_def skipWS_def)
qed

lemma JSON_parse_stringify: "JSON_parse (JSON_stringify xs) = Some (JArray (map JString xs))"
  using parseValue_JSON_stringify[of xs "[]"] by (simp add: JSON_parse_def skipWS_def)

lemma trim_id: "s \<noteq> [] \<Longrightarrow> \<not> isWhiteSpace (hd s) \<Longrightarrow> \<not> isWhiteSpace (last s) \<Longrightarrow> trim s = s"
proof -
  assume n: "s \<noteq> []" and h: "\<not> isWhiteSpace (hd s)" and l: "\<not> isWhiteSpace (last s)"
  from n h have 1: "dropWhile isWhiteSpace s = s" by (cases s) simp_all
  from n l have "dropWhile isWhiteSpace (rev s) = rev s"
    by (cases "rev s") (simp_all add: last_rev[symmetric] hd_rev)
  with 1 show ?thesis by (simp add: trim_def trimStart_def trimEnd_def)
qed

lemma trim_JSON_stringify: "trim (JSON_stringify xs) = JSON_stringify xs"
  by (rule trim_id) (simp_all add: JSON_stringify_def isWhiteSpace_def)

section \<open>Splitting at the delimiter\<close>

lemma split_from_absent:
  "\<not> sublist sep s \<Longrightarrow> split_from sep cur s = [cur @ s]"
  by (induction sep cur s rule: split_from.induct) (auto simp: sublist_Cons_right)

lemma prefix_long_sublist:
  assumes "prefix sep (p @ sep @ rest)" and "p \<noteq> []"
  shows "sublist sep (p @ butlast sep)"
proof (cases "sep = []")
  case True
  then show ?thesis by simp
next
  case False
  then have l: "length sep \<le> length (p @ butlast sep)" using assms(2) by (cases p) simp_all
  from assms(1) have "prefix sep ((p @ butlast sep) @ [last sep] @ rest)"
    using False by (metis append.assoc append_butlast_last_id)
  with l have "prefix sep (p @ butlast sep)"
    by (metis prefix_length_prefix prefix_order.order_refl prefix_append prefixI)
  then show ?thesis by (rule prefix_imp_sublist)
qed

lemma split_from_first:
  assumes "sep \<noteq> []"
  shows "\<not> sublist sep (pre @ butlast sep) \<Longrightarrow>
         split_from sep cur (pre @ sep @ rest) = (cur @ pre) # split_from sep [] rest"
proof (induction pre arbitrary: cur)
  case Nil
  from assms obtain c cs where s: "sep = c # cs" by (cases sep) auto
  have "split_from sep cur (sep @ rest) = cur # split_from sep [] (drop (length sep) (sep @ rest))"
    unfolding s by simp
  then show ?case by simp
next
  case (Cons a pre)
  have np: "\<not> prefix sep ((a # pre) @ sep @ rest)"
    using prefix_long_sublist[of sep "a # pre" rest] Cons.prems by blast
  have "\<not> sublist sep (pre @ butlast sep)"
    using Cons.prems by (simp add: sublist_Cons_right)
  from Cons.IH[OF this, of "cur @ [a]"] np show ?case by simp
qed

lemma split_first:
  assumes "sep \<noteq> []" and "\<not> sublist sep (pre @ butlast sep)"
  shows "split sep (pre @ sep @ rest) = pre # split sep rest"
  using split_from_first[OF assms, of "[]" rest] assms(1) by (simp add: split_def)

lemma split_absent:
  assumes "sep \<noteq> []" and "\<not> sublist sep s"
  shows "split sep s = [s]"
  using split_from_absent[OF assms(2), of "[]"] assms(1) by (simp add: split_def)

lemma split_from_nonempty: "split_from sep cur s \<noteq> []"
  by (induction sep cur s rule: split_from.induct) auto

section \<open>The delimiter inside the payload\<close>

lemma DELIM_eq:
  "SUGGESTIONS_DELIMITER = [58, 58, 58, 83, 85, 71, 71, 69, 83, 84, 73, 79, 78, 83, 58, 58, 58]"
  by (simp add: SUGGESTIONS_DELIMITER_def utf16_def)

lemma DELIM_set: "set SUGGESTIONS_DELIMITER = {58, 83, 85, 71, 69, 84, 73, 79, 78}"
  unfolding DELIM_eq by auto

lemma DELIM_nonempty: "SUGGESTIONS_DELIMITER \<noteq> []"
  by (simp add: DELIM_eq)

lemma sublist_barrier:
  assumes "x \<notin> set d" and "d \<noteq> []"
  shows "sublist d (a @ x # b) \<longleftrightarrow> sublist d a \<or> sublist d b"
proof
  assume "sublist d (a @ x # b)"
  then consider "sublist d a" | "sublist d (x # b)"
    | d1 d2 where "d = d1 @ d2" "suffix d1 a" "prefix d2 (x # b)"
    unfolding sublist_append by blast
  then show "sublist d a \<or> sublist d b"
  proof cases
    case 1
    then show ?thesis ..
  next
    case 2
    have "\<not> prefix d (x # b)"
      using assms by (cases d) auto
    with 2 show ?thesis by (simp add: sublist_Cons_right)
  next
    case 3
    have "d2 = []"
    proof (cases d2)
      case (Cons y ys)
      with 3 have "y = x" by simp
      with Cons 3(1) assms(1) show ?thesis by simp
    qed simp
    with 3 have "suffix d a" by simp
    then show ?thesis by simp
  qed
next
  assume "sublist d a \<or> sublist d b"
  then show "sublist d (a @ x # b)"
    by (metis append_Cons append_Nil sublist_append)
qed

lemma sublist_barriers:
  assumes "set e \<inter> set d = {}" and "d \<noteq> []"
  shows "sublist d (e @ q) \<Longrightarrow> sublist d q"
  using assms(1)
proof (induction e)
  case Nil
  then show ?case by simp
next
  case (Cons x e)
  from Cons.prems have x: "x \<notin> set d" and e: "set e \<inter> set d = {}" by auto
  from Cons.prems(1) have "sublist d ([] @ x # (e @ q))" by simp
  then have "sublist d (e @ q)"
    unfolding sublist_barrier[OF x assms(2)] using assms(2) by simp
  with Cons.IH e show ?case by blast
qed

lemma quoteBody_head:
  "quoteBody (c # cs) = c # quoteBody cs \<and> isPlain c \<or>
   (\<exists>t. quoteBody (c # cs) = 92 # t) \<or>
   (\<exists>t. quoteBody (c # cs) = c # t \<and> isHighSurrogate c)"
proof -
  consider (short) e where "shortEscape c = Some e"
    | (ctl) "shortEscape c = None" "c < 32"
    | (pair) d ds where "isHighSurrogate c" "cs = d # ds" "isLowSurrogate d"
    | (high) "isHighSurrogate c" "case cs of [] \<Rightarrow> True | d # ds \<Rightarrow> \<not> isLowSurrogate d"
    | (low) "isLowSurrogate c"
    | (lit) "\<not> isEscaped c" "\<not> isHighSurrogate c" "\<not> isLowSurrogate c"
  proof (cases "isEscaped c")
    case True
    then show ?thesis using escaped_cases short ctl by blast
  next
    case False
    then show ?thesis using pair high low lit by (cases cs) auto
  qed
  then show ?thesis
  proof cases
    case short
    then show ?thesis by (simp add: quoteBody_short)
  next
    case ctl
    then show ?thesis by (simp add: quoteBody_control unicodeEscape_def)
  next
    case pair
    then show ?thesis by (simp add: quoteBody_pair)
  next
    case high
    then show ?thesis by (simp add: quoteBody_lone_high unicodeEscape_def)
  next
    case low
    then show ?thesis by (simp add: quoteBody_lone_low unicodeEscape_def)
  next
    case lit
    then show ?thesis by (simp add: quoteBody_literal isPlain_def)
  qed
qed

lemma prefix_quoteBody:
  assumes "\<forall>x \<in> set p. isPlain x"
  shows "prefix p (quoteBody s @ 34 # t) \<Longrightarrow> prefix p s"
  using assms
proof (induction s arbitrary: p)
  case Nil
  then show ?case by (cases p) (auto simp: isPlain_def isEscaped_def)
next
  case (Cons c cs)
  show ?case
  proof (cases p)
    case Nil
    then show ?thesis by simp
  next
    case p: (Cons x p')
    from Cons.prems(2) p have x: "isPlain x" and p': "\<forall>y \<in> set p'. isPlain y" by simp_all
    from x have x92: "x \<noteq> 92" and xh: "\<not> isHighSurrogate x"
      by (auto simp: isPlain_def isEscaped_def)
    from quoteBody_head[of c cs] Cons.prems(1) p x92 xh
    have q: "quoteBody (c # cs) = c # quoteBody cs" by auto
    with Cons.prems(1) p have "x = c" and "prefix p' (quoteBody cs @ 34 # t)" by simp_all
    with Cons.IH[OF _ p'] p show ?thesis by simp
  qed
qed

lemma DELIM_plain: "\<forall>x \<in> set SUGGESTIONS_DELIMITER. isPlain x"
  unfolding DELIM_set
  by (simp add: isPlain_def isEscaped_def isHighSurrogate_def isLowSurrogate_def)

lemma hexDigit_not_DELIM: "hexDigit (n mod 16) \<notin> set SUGGESTIONS_DELIMITER"
proof -
  have "n mod 16 < 16" by simp
  then have "hexDigit (n mod 16) \<le> 57 \<or> (97 \<le> hexDigit (n mod 16) \<and> hexDigit (n mod 16) \<le> 102)"
    unfolding hexDigit_def by (simp split: if_split) linarith
  then show ?thesis unfolding DELIM_set by auto
qed

lemma unicodeEscape_not_DELIM: "set (unicodeEscape c) \<inter> set SUGGESTIONS_DELIMITER = {}"
  using hexDigit_not_DELIM[of "c div 4096"] hexDigit_not_DELIM[of "c div 256"]
    hexDigit_not_DELIM[of "c div 16"] hexDigit_not_DELIM[of c]
  by (simp add: unicodeEscape_def) (simp add: DELIM_set)

lemma shortEscape_not_DELIM:
  assumes "shortEscape c = Some e"
  shows "set [92, e] \<inter> set SUGGESTIONS_DELIMITER = {}"
  using shortEscape_cases[OF assms] unfolding DELIM_set by auto

lemma surrogate_not_DELIM: "isHighSurrogate c \<or> isLowSurrogate c \<Longrightarrow> c \<notin> set SUGGESTIONS_DELIMITER"
  unfolding DELIM_set isHighSurrogate_def isLowSurrogate_def by auto

lemma sublist_quoteBody:
  "sublist SUGGESTIONS_DELIMITER (quoteBody s @ 34 # t) \<Longrightarrow>
   sublist SUGGESTIONS_DELIMITER s \<or> sublist SUGGESTIONS_DELIMITER t"
proof (induction s rule: length_induct)
  case (1 s)
  let ?D = SUGGESTIONS_DELIMITER
  have q: "(34::nat) \<notin> set ?D" unfolding DELIM_set by simp
  show ?case
  proof (cases s)
    case Nil
    with "1.prems" have "sublist ?D ([] @ 34 # t)" by simp
    then show ?thesis unfolding sublist_barrier[OF q DELIM_nonempty] using DELIM_nonempty by simp
  next
    case (Cons c cs)
    have ih: "sublist ?D (quoteBody cs @ 34 # t) \<Longrightarrow> sublist ?D (c # cs) \<or> sublist ?D t"
      using "1.IH" Cons by (auto simp: sublist_Cons_right)
    consider (short) e where "shortEscape c = Some e"
      | (ctl) "shortEscape c = None" "c < 32"
      | (pair) d ds where "isHighSurrogate c" "cs = d # ds" "isLowSurrogate d"
      | (high) "isHighSurrogate c" "case cs of [] \<Rightarrow> True | d # ds \<Rightarrow> \<not> isLowSurrogate d"
      | (low) "isLowSurrogate c"
      | (lit) "\<not> isEscaped c" "\<not> isHighSurrogate c" "\<not> isLowSurrogate c"
    proof (cases "isEscaped c")
      case True
      then show ?thesis using escaped_cases short ctl by blast
    next
      case False
      then show ?thesis using pair high low lit by (cases cs) auto
    qed
    then show ?thesis
    proof cases
      case short
      with "1.prems" Cons have "sublist ?D ([92, e] @ (quoteBody cs @ 34 # t))"
        by (simp add: quoteBody_short)
      from sublist_barriers[OF shortEscape_not_DELIM[OF short] DELIM_nonempty this] ih Cons
      show ?thesis by simp
    next
      case ctl
      with "1.prems" Cons have "sublist ?D (unicodeEscape c @ (quoteBody cs @ 34 # t))"
        by (simp add: quoteBody_control)
      from sublist_barriers[OF unicodeEscape_not_DELIM DELIM_nonempty this] ih Cons
      show ?thesis by simp
    next
      case pair
      have ihd: "sublist ?D (quoteBody ds @ 34 # t) \<Longrightarrow> sublist ?D (c # d # ds) \<or> sublist ?D t"
        using "1.IH" Cons pair by (auto simp: sublist_Cons_right)
      have b: "set [c, d] \<inter> set ?D = {}"
        using surrogate_not_DELIM[of c] surrogate_not_DELIM[of d] pair by simp
      from "1.prems" Cons pair have "sublist ?D ([c, d] @ (quoteBody ds @ 34 # t))"
        by (simp add: quoteBody_pair)
      from sublist_barriers[OF b DELIM_nonempty this] ihd Cons pair
      show ?thesis by simp
    next
      case high
      with "1.prems" Cons have "sublist ?D (unicodeEscape c @ (quoteBody cs @ 34 # t))"
        by (simp add: quoteBody_lone_high)
      from sublist_barriers[OF unicodeEscape_not_DELIM DELIM_nonempty this] ih Cons
      show ?thesis by simp
    next
      case low
      with "1.prems" Cons have "sublist ?D (unicodeEscape c @ (quoteBody cs @ 34 # t))"
        by (simp add: quoteBody_lone_low)
      from sublist_barriers[OF unicodeEscape_not_DELIM DELIM_nonempty this] ih Cons
      show ?thesis by simp
    next
      case lit
      then have qb: "quoteBody (c # cs) = c # quoteBody cs" by (rule quoteBody_literal)
      with "1.prems" Cons have "prefix ?D (quoteBody (c # cs) @ 34 # t) \<or> sublist ?D (quoteBody cs @ 34 # t)"
        by (simp add: sublist_Cons_right)
      then show ?thesis
      proof
        assume "prefix ?D (quoteBody (c # cs) @ 34 # t)"
        from prefix_quoteBody[OF DELIM_plain this] Cons show ?thesis by auto
      next
        assume "sublist ?D (quoteBody cs @ 34 # t)"
        with ih Cons show ?thesis by simp
      qed
    qed
  qed
qed

lemma sublist_QuoteJSONString:
  assumes "sublist SUGGESTIONS_DELIMITER (QuoteJSONString x @ r)"
  shows "sublist SUGGESTIONS_DELIMITER x \<or> sublist SUGGESTIONS_DELIMITER r"
proof -
  have q: "(34::nat) \<notin> set SUGGESTIONS_DELIMITER" unfolding DELIM_set by simp
  from assms have "sublist SUGGESTIONS_DELIMITER ([] @ 34 # (quoteBody x @ 34 # r))"
    by (simp add: QuoteJSONString_def)
  then have "sublist SUGGESTIONS_DELIMITER (quoteBody x @ 34 # r)"
    unfolding sublist_barrier[OF q DELIM_nonempty] using DELIM_nonempty by simp
  then show ?thesis by (rule sublist_quoteBody)
qed

lemma sublist_stringifyElements:
  "sublist SUGGESTIONS_DELIMITER (stringifyElements xs) \<Longrightarrow>
   \<exists>x \<in> set xs. sublist SUGGESTIONS_DELIMITER x"
proof (induction xs rule: stringifyElements.induct)
  case 1
  then show ?case using DELIM_nonempty by simp
next
  case (2 x)
  then have "sublist SUGGESTIONS_DELIMITER (QuoteJSONString x @ [])" by simp
  from sublist_QuoteJSONString[OF this] show ?case using DELIM_nonempty by simp
next
  case (3 x y ys)
  have c: "(44::nat) \<notin> set SUGGESTIONS_DELIMITER" unfolding DELIM_set by simp
  from 3(2) have "sublist SUGGESTIONS_DELIMITER (QuoteJSONString x @ (44 # stringifyElements (y # ys)))"
    by simp
  from sublist_QuoteJSONString[OF this]
  have "sublist SUGGESTIONS_DELIMITER x \<or> sublist SUGGESTIONS_DELIMITER ([] @ 44 # stringifyElements (y # ys))"
    by simp
  then have "sublist SUGGESTIONS_DELIMITER x \<or> sublist SUGGESTIONS_DELIMITER (stringifyElements (y # ys))"
    unfolding sublist_barrier[OF c DELIM_nonempty] using DELIM_nonempty by simp
  with 3(1) show ?case by auto
qed

lemma sublist_JSON_stringify:
  assumes "sublist SUGGESTIONS_DELIMITER (JSON_stringify xs)"
  shows "\<exists>x \<in> set xs. sublist SUGGESTIONS_DELIMITER x"
proof -
  have o: "(91::nat) \<notin> set SUGGESTIONS_DELIMITER" and c: "(93::nat) \<notin> set SUGGESTIONS_DELIMITER"
    unfolding DELIM_set by simp_all
  from assms have "sublist SUGGESTIONS_DELIMITER ([] @ 91 # (stringifyElements xs @ [93]))"
    by (simp add: JSON_stringify_def)
  then have "sublist SUGGESTIONS_DELIMITER (stringifyElements xs @ 93 # [])"
    unfolding sublist_barrier[OF o DELIM_nonempty] using DELIM_nonempty by simp
  then have "sublist SUGGESTIONS_DELIMITER (stringifyElements xs)"
    unfolding sublist_barrier[OF c DELIM_nonempty] using DELIM_nonempty by simp
  then show ?thesis by (rule sublist_stringifyElements)
qed

section \<open>The suggestion parser\<close>

lemma split_isPiece:
  assumes "sep \<noteq> []" and "isPiece sep p t"
  shows "\<exists>others. split sep (p @ t) = p # others \<and>
           (t = [] \<longrightarrow> others = []) \<and> (t \<noteq> [] \<longrightarrow> others = split sep (drop (length sep) t))"
proof (cases "t = []")
  case True
  with assms show ?thesis by (simp add: isPiece_def split_absent)
next
  case False
  with assms obtain r where t: "t = sep @ r" and n: "\<not> sublist sep (p @ butlast sep)"
    by (auto simp: isPiece_def prefix_def)
  from split_first[OF assms(1) n, of r] t False assms(1) show ?thesis by simp
qed

lemma parseMessageContent_pieces:
  assumes "isPiece SUGGESTIONS_DELIMITER pre (SUGGESTIONS_DELIMITER @ seg @ tail)"
    and "isPiece SUGGESTIONS_DELIMITER seg tail"
  shows "parseMessageContent (pre @ SUGGESTIONS_DELIMITER @ seg @ tail) =
           Returns (trim pre, case JSON_parse (trim seg) of None \<Rightarrow> JArray [] | Some v \<Rightarrow> v)"
proof -
  let ?D = SUGGESTIONS_DELIMITER
  from split_isPiece[OF DELIM_nonempty assms(1)] DELIM_nonempty
  have 1: "split ?D (pre @ ?D @ seg @ tail) = pre # split ?D (seg @ tail)" by auto
  from split_isPiece[OF DELIM_nonempty assms(2)]
  obtain others where 2: "split ?D (seg @ tail) = seg # others" by blast
  show ?thesis by (simp add: parseMessageContent_def Let_def 1 2)
qed

lemma parseMessageContent_total: "\<exists>r. parseMessageContent raw = Returns r"
proof -
  have "split SUGGESTIONS_DELIMITER raw \<noteq> []"
    using DELIM_nonempty split_from_nonempty by (simp add: split_def)
  then show ?thesis
    by (cases "split SUGGESTIONS_DELIMITER raw") (simp_all add: parseMessageContent_def Let_def)
qed

lemma first_occurrence:
  assumes "sep \<noteq> []"
  shows "sublist sep s \<Longrightarrow> \<exists>pre rest. s = pre @ sep @ rest \<and> \<not> sublist sep (pre @ butlast sep)"
proof (induction s)
  case Nil
  with assms show ?case by simp
next
  case (Cons c cs)
  show ?case
  proof (cases "prefix sep (c # cs)")
    case True
    then obtain rest where "c # cs = [] @ sep @ rest" by (auto simp: prefix_def)
    moreover have "\<not> sublist sep ([] @ butlast sep)"
      using assms sublist_length_le[of sep "butlast sep"] by (cases sep) auto
    ultimately show ?thesis by blast
  next
    case False
    with Cons.prems have "sublist sep cs" by (simp add: sublist_Cons_right)
    from Cons.IH[OF this] obtain pre rest where
      cs: "cs = pre @ sep @ rest" and n: "\<not> sublist sep (pre @ butlast sep)" by blast
    have "prefix (butlast sep) sep" by (simp add: prefixeq_butlast)
    then have "prefix (c # pre @ butlast sep) (c # cs)"
      unfolding cs by (simp add: prefix_def) (metis append.assoc)
    with False have "\<not> prefix sep (c # pre @ butlast sep)"
      using prefix_order.order_trans by blast
    with n have "\<not> sublist sep ((c # pre) @ butlast sep)" by (simp add: sublist_Cons_right)
    moreover have "c # cs = (c # pre) @ sep @ rest" using cs by simp
    ultimately show ?thesis by blast
  qed
qed

lemma piece_exists:
  assumes "sep \<noteq> []"
  shows "\<exists>seg tail. s = seg @ tail \<and> isPiece sep seg tail"
proof (cases "sublist sep s")
  case False
  then have "s = s @ [] \<and> isPiece sep s []" by (simp add: isPiece_def)
  then show ?thesis by blast
next
  case True
  from first_occurrence[OF assms True] obtain pre rest where
    "s = pre @ (sep @ rest)" and "\<not> sublist sep (pre @ butlast sep)" by auto
  then have "s = pre @ (sep @ rest) \<and> isPiece sep pre (sep @ rest)" by (simp add: isPiece_def)
  then show ?thesis by blast
qed

text \<open>
  Every text that contains the delimiter is made of such pieces: the text before the
  first delimiter, the delimiter, the text up to the next delimiter or the end, and
  the rest.
\<close>

lemma delimited_text_pieces:
  assumes "sublist SUGGESTIONS_DELIMITER raw"
  shows "\<exists>pre seg tail. raw = pre @ SUGGESTIONS_DELIMITER @ seg @ tail \<and>
           isPiece SUGGESTIONS_DELIMITER pre (SUGGESTIONS_DELIMITER @ seg @ tail) \<and>
           isPiece SUGGESTIONS_DELIMITER seg tail"
proof -
  let ?D = SUGGESTIONS_DELIMITER
  from first_occurrence[OF DELIM_nonempty assms] obtain pre rest where
    r: "raw = pre @ ?D @ rest" and n: "\<not> sublist ?D (pre @ butlast ?D)" by blast
  from piece_exists[OF DELIM_nonempty, of rest] obtain seg tail where
    s: "rest = seg @ tail" and p: "isPiece ?D seg tail" by blast
  have "isPiece ?D pre (?D @ seg @ tail)" using n by (simp add: isPiece_def)
  with r s p show ?thesis by blast
qed

text \<open>
  Claim C5, as the code has it. The round trip holds when the delimiter that is appended
  is the first one in the text (no occurrence begins inside \<open>displayText\<close>, not even one
  that runs over into the appended delimiter) and no string of the list contains the
  delimiter.
\<close>

theorem suggestion_round_trip:
  assumes "\<not> sublist SUGGESTIONS_DELIMITER (displayText @ butlast SUGGESTIONS_DELIMITER)"
    and "\<forall>x \<in> set list. \<not> sublist SUGGESTIONS_DELIMITER x"
  shows "parseMessageContent (displayText @ SUGGESTIONS_DELIMITER @ JSON_stringify list) =
           Returns (trim displayText, JArray (map JString list))"
proof -
  let ?D = SUGGESTIONS_DELIMITER
  have 1: "isPiece ?D displayText (?D @ JSON_stringify list @ [])"
    using assms(1) by (simp add: isPiece_def)
  have "\<not> sublist ?D (JSON_stringify list)"
    using sublist_JSON_stringify assms(2) by blast
  then have 2: "isPiece ?D (JSON_stringify list) []" by (simp add: isPiece_def)
  from parseMessageContent_pieces[OF 1 2] show ?thesis
    by (simp add: trim_JSON_stringify JSON_parse_stringify)
qed

text \<open>
  Claim C6, as the code has it. The parser never throws. When the text between the
  first delimiter and the next one (or the end of the text), trimmed, is not JSON, the
  result is the trimmed text before the first delimiter and no suggestions.
\<close>

theorem malformed_payload:
  "(\<exists>r. parseMessageContent raw = Returns r) \<and>
   (isPiece SUGGESTIONS_DELIMITER pre (SUGGESTIONS_DELIMITER @ seg @ tail) \<and>
    isPiece SUGGESTIONS_DELIMITER seg tail \<and> JSON_parse (trim seg) = None \<longrightarrow>
      parseMessageContent (pre @ SUGGESTIONS_DELIMITER @ seg @ tail) = Returns (trim pre, JArray []))"
proof (intro conjI impI)
  show "\<exists>r. parseMessageContent raw = Returns r"
    by (rule parseMessageContent_total)
next
  assume a: "isPiece SUGGESTIONS_DELIMITER pre (SUGGESTIONS_DELIMITER @ seg @ tail) \<and>
    isPiece SUGGESTIONS_DELIMITER seg tail \<and> JSON_parse (trim seg) = None"
  then have "parseMessageContent (pre @ SUGGESTIONS_DELIMITER @ seg @ tail) =
      Returns (trim pre, case JSON_parse (trim seg) of None \<Rightarrow> JArray [] | Some v \<Rightarrow> v)"
    by (intro parseMessageContent_pieces) simp_all
  with a show "parseMessageContent (pre @ SUGGESTIONS_DELIMITER @ seg @ tail) =
      Returns (trim pre, JArray [])"
    by simp
qed

subsection \<open>Concrete messages\<close>

lemmas eval_strings = SUGGESTIONS_DELIMITER_def utf16_def trim_def trimStart_def trimEnd_def
  isWhiteSpace_def split_def Let_def

lemmas eval_json = JSON_parse_def skipWS_def isJSONWhiteSpace_def isDigit_def parseElements.simps
  parseMembers.simps consChar_def escapeChar_def hexValue_def parseNumber_def parseSign_def
  parseInt_def parseFrac_def parseExp_def parseLiteral_def

lemmas eval_stringify = JSON_stringify_def QuoteJSONString_def quoteBody.simps(2) unicodeEscape_def
  hexDigit_def isHighSurrogate_def isLowSurrogate_def

lemma pickOne_piece:
  "\<not> sublist SUGGESTIONS_DELIMITER (pickOne @ butlast SUGGESTIONS_DELIMITER)"
  by (simp add: pickOne_def eval_strings sublist_Cons_right)

lemma quotedChips_free: "\<forall>x \<in> set quotedChips. \<not> sublist SUGGESTIONS_DELIMITER x"
  by (simp add: quotedChips_def eval_strings sublist_Cons_right)

text \<open>
  A round trip with a quote, a tab, a surrogate pair and a lone surrogate in the chips.
\<close>

theorem suggestion_round_trip_witness:
  "JSON_stringify quotedChips =
     utf16 ''['' @ [34] @ utf16 ''say '' @ [92, 34] @ utf16 ''hi'' @ [92, 34, 34] @ utf16 '','' @ [34] @
     utf16 ''a:::b'' @ [34] @ utf16 '','' @ [34, 0xD83D, 0xDE00, 92] @ utf16 ''t'' @ [92] @ utf16 ''udc00'' @
     [34] @ utf16 '']'' \<and>
   parseMessageContent (pickOne @ SUGGESTIONS_DELIMITER @ JSON_stringify quotedChips) =
     Returns (utf16 ''Pick one:'', JArray (map JString quotedChips))"
proof -
  have t: "trim pickOne = utf16 ''Pick one:''"
    by (simp add: pickOne_def eval_strings)
  have j: "JSON_stringify quotedChips =
     utf16 ''['' @ [34] @ utf16 ''say '' @ [92, 34] @ utf16 ''hi'' @ [92, 34, 34] @ utf16 '','' @ [34] @
     utf16 ''a:::b'' @ [34] @ utf16 '','' @ [34, 0xD83D, 0xDE00, 92] @ utf16 ''t'' @ [92] @ utf16 ''udc00'' @
     [34] @ utf16 '']''"
    by (simp add: quotedChips_def eval_stringify utf16_def)
  show ?thesis
    using suggestion_round_trip[OF pickOne_piece quotedChips_free] t j by simp
qed

text \<open>
  The round trip as claimed fails in two ways. A display text without the delimiter can
  end in the delimiter's beginning, so that an occurrence starts inside it; and a string
  of the list can contain the delimiter, which cuts the payload short.
\<close>

theorem suggestion_round_trip_counterexample:
  "\<not> sublist SUGGESTIONS_DELIMITER (utf16 '':::SUGGESTIONS'') \<and>
   trim (utf16 '':::SUGGESTIONS'') = utf16 '':::SUGGESTIONS'' \<and>
   parseMessageContent (utf16 '':::SUGGESTIONS'' @ SUGGESTIONS_DELIMITER @ JSON_stringify [utf16 ''a'']) =
     Returns ([], JArray []) \<and>
   \<not> sublist SUGGESTIONS_DELIMITER (utf16 ''hi'') \<and>
   parseMessageContent (utf16 ''hi'' @ SUGGESTIONS_DELIMITER @ JSON_stringify [SUGGESTIONS_DELIMITER]) =
     Returns (utf16 ''hi'', JArray [])"
proof (intro conjI)
  show "\<not> sublist SUGGESTIONS_DELIMITER (utf16 '':::SUGGESTIONS'')"
    by (simp add: eval_strings sublist_Cons_right)
  show "trim (utf16 '':::SUGGESTIONS'') = utf16 '':::SUGGESTIONS''"
    by (simp add: eval_strings)
  show "parseMessageContent (utf16 '':::SUGGESTIONS'' @ SUGGESTIONS_DELIMITER @ JSON_stringify [utf16 ''a'']) =
     Returns ([], JArray [])"
    by (simp add: parseMessageContent_def eval_strings eval_stringify eval_json)
  show "\<not> sublist SUGGESTIONS_DELIMITER (utf16 ''hi'')"
    by (simp add: eval_strings sublist_Cons_right)
  show "parseMessageContent (utf16 ''hi'' @ SUGGESTIONS_DELIMITER @ JSON_stringify [SUGGESTIONS_DELIMITER]) =
     Returns (utf16 ''hi'', JArray [])"
    by (simp add: parseMessageContent_def eval_strings eval_stringify eval_json)
qed

text \<open>
  The literal reply of the critic has such a payload: its chip is not quoted, so the
  payload is not JSON and no chip is shown.
\<close>

lemma NOTHING_TO_REVIEW_parse:
  "parseMessageContent (NOTHING_TO_REVIEW []) =
     Returns ([0x8BF7, 0x5148, 0x751F, 0x6210, 0x8349, 0x7A3F, 0xFF0C, 0x6216, 0x8005, 0x76F4, 0x63A5,
               0x628A, 0x8981, 0x8BC4, 0x5BA1, 0x7684, 0x5185, 0x5BB9, 0x53D1, 0x7ED9, 0x6211, 0x3002],
              JArray [])"
  by (simp add: NOTHING_TO_REVIEW_def parseMessageContent_def eval_strings eval_json)

text \<open>A payload that is cut off.\<close>

theorem malformed_payload_witness:
  "JSON_parse (trim (utf16 '' [oops'')) = None \<and>
   parseMessageContent (utf16 ''hi '' @ SUGGESTIONS_DELIMITER @ utf16 '' [oops'') =
     Returns (utf16 ''hi'', JArray [])"
proof -
  have 1: "isPiece SUGGESTIONS_DELIMITER (utf16 ''hi '') (SUGGESTIONS_DELIMITER @ utf16 '' [oops'' @ [])"
    by (simp add: isPiece_def) (simp add: eval_strings sublist_Cons_right)
  have 2: "isPiece SUGGESTIONS_DELIMITER (utf16 '' [oops'') []"
    by (simp add: isPiece_def) (simp add: eval_strings sublist_Cons_right)
  have 3: "JSON_parse (trim (utf16 '' [oops'')) = None"
    by (simp add: eval_strings eval_json)
  have 4: "trim (utf16 ''hi '') = utf16 ''hi''"
    by (simp add: eval_strings)
  show ?thesis
    using malformed_payload[of "[]" "utf16 ''hi ''" "utf16 '' [oops''" "[]"] 1 2 3 4 by simp
qed

text \<open>
  The claim about every suffix that is not JSON fails in two ways: the payload ends at
  the next delimiter, so what follows it is ignored; and the payload is trimmed of white
  space that JSON does not allow, such as a no-break space.
\<close>

theorem malformed_payload_counterexample:
  "JSON_parse (utf16 ''['' @ [34] @ utf16 ''a'' @ [34] @ utf16 '']'' @ SUGGESTIONS_DELIMITER @ utf16 ''junk'') = None \<and>
   parseMessageContent (utf16 ''hi'' @ SUGGESTIONS_DELIMITER @
       (utf16 ''['' @ [34] @ utf16 ''a'' @ [34] @ utf16 '']'' @ SUGGESTIONS_DELIMITER @ utf16 ''junk'')) =
     Returns (utf16 ''hi'', JArray [JString (utf16 ''a'')]) \<and>
   JSON_parse ([0xA0] @ utf16 ''['' @ [34] @ utf16 ''a'' @ [34] @ utf16 '']'') = None \<and>
   parseMessageContent (utf16 ''hi'' @ SUGGESTIONS_DELIMITER @
       ([0xA0] @ utf16 ''['' @ [34] @ utf16 ''a'' @ [34] @ utf16 '']'')) =
     Returns (utf16 ''hi'', JArray [JString (utf16 ''a'')])"
  by (simp add: parseMessageContent_def eval_strings eval_json)

section \<open>The special command\<close>

lemma FIX_DONE_TEXT_parse:
  "parseMessageContent FIX_DONE_TEXT = Returns (FIX_DONE_CLEAN, JArray (map JString FIX_DONE_CHIPS))"
  by (simp add: FIX_DONE_TEXT_def FIX_DONE_CLEAN_def FIX_DONE_CHIPS_def parseMessageContent_def
      eval_strings eval_json)

lemma oneClickFix_success:
  assumes "applyEditorFixes (fixesReply env) = Returns result"
  shows "oneClickFix env st cur =
           (cur\<lparr>messages := map (\<lambda>m. if msgId m = aiUUID env
                                        then m\<lparr>msgText := FIX_DONE_TEXT, isThinking := Some False\<rparr>
                                        else m)
                                  (messages cur @ [placeholder (aiUUID env) EDITOR FIX_PENDING_TEXT (aiNow env)]),
                 calls := calls cur @ [CallApplyEditorFixes (draftContent st)
                                         (lastCritiqueText (messages st)) (selectedPersona st)],
                 draftContent := (if result \<noteq> [] then result else draftContent st),
                 isProcessing := False\<rparr>,
            Returned)"
  using assms by (simp add: oneClickFix_def Let_def)

text \<open>
  Claim C2, as the code has it. When the text to send is the special-command literal
  and \<open>applyEditorFixes\<close> returns, \<open>draftContent\<close> becomes the result, or stays what
  it was when the result is empty; the turn's pending message, tagged with the critic, is
  finalized with the fixed confirmation text, which carries three suggestion chips; no
  further service call is made and the turn is no longer in progress.
\<close>

theorem one_click_fix_success:
  assumes "textToSend ov st = ONE_CLICK_FIX"
    and "applyEditorFixes (fixesReply env) = Returns result"
  shows "draftContent (handleSend env ov st) = (if result \<noteq> [] then result else draftContent st) \<and>
         last (messages (handleSend env ov st)) =
           \<lparr>msgId = aiUUID env, role = Model, msgText = FIX_DONE_TEXT, timestamp = aiNow env,
            isThinking = Some False, agentId = Some EDITOR\<rparr> \<and>
         parseMessageContent (msgText (last (messages (handleSend env ov st)))) =
           Returns (FIX_DONE_CLEAN, JArray (map JString FIX_DONE_CHIPS)) \<and>
         length FIX_DONE_CHIPS = 3 \<and>
         turnCalls env ov st =
           topicCalls ONE_CLICK_FIX st @
           [CallApplyEditorFixes (draftContent st) (lastCritiqueText (messages st)) (selectedPersona st)] \<and>
         isProcessing (handleSend env ov st) = False"
proof -
  let ?cur = "beginTurn env ONE_CLICK_FIX st"
  have hs: "handleSend env ov st = endTurn (oneClickFix env st ?cur)"
    using assms(1) by (rule handleSend_special)
  have m: "messages (handleSend env ov st) =
             map (\<lambda>m. if msgId m = aiUUID env
                       then m\<lparr>msgText := FIX_DONE_TEXT, isThinking := Some False\<rparr> else m)
               (messages ?cur @ [placeholder (aiUUID env) EDITOR FIX_PENDING_TEXT (aiNow env)])"
    unfolding hs oneClickFix_success[OF assms(2)] by (simp add: messages_endTurn_not_thrown)
  have l: "last (messages (handleSend env ov st)) =
           \<lparr>msgId = aiUUID env, role = Model, msgText = FIX_DONE_TEXT, timestamp = aiNow env,
            isThinking = Some False, agentId = Some EDITOR\<rparr>"
    unfolding m by (simp add: placeholder_def)
  have d: "draftContent (handleSend env ov st) = (if result \<noteq> [] then result else draftContent st)"
    unfolding hs by (simp add: draftContent_endTurn draftContent_oneClickFix[OF assms(2)])
  have c: "turnCalls env ov st =
           topicCalls ONE_CLICK_FIX st @
           [CallApplyEditorFixes (draftContent st) (lastCritiqueText (messages st)) (selectedPersona st)]"
    by (simp add: turnCalls_def calls_handleSend_special[OF assms(1)])
  have p: "isProcessing (handleSend env ov st) = False"
    unfolding hs by (rule isProcessing_endTurn)
  have n: "length FIX_DONE_CHIPS = 3" by (simp add: FIX_DONE_CHIPS_def)
  show ?thesis using l d c p n FIX_DONE_TEXT_parse by simp
qed

text \<open>A rewrite that is used, and an empty one that leaves the draft as it was.\<close>

theorem one_click_fix_success_witness:
  "applyEditorFixes (fixesReply exampleEnv) = Returns (utf16 ''fixed'') \<and>
   draftContent (handleSend exampleEnv (Some ONE_CLICK_FIX) exampleState) = utf16 ''fixed'' \<and>
   msgText (last (messages (handleSend exampleEnv (Some ONE_CLICK_FIX) exampleState))) = FIX_DONE_TEXT \<and>
   draftContent (handleSend (exampleEnv\<lparr>fixesReply := Returns (Some (utf16 ''``` ```''))\<rparr>)
      (Some ONE_CLICK_FIX) exampleState) = utf16 ''draft''"
proof -
  let ?env = "exampleEnv\<lparr>fixesReply := Returns (Some (utf16 ''``` ```''))\<rparr>"
  have h: "textToSend (Some ONE_CLICK_FIX) exampleState = ONE_CLICK_FIX"
    by (simp add: textToSend_def ONE_CLICK_FIX_def)
  have a: "applyEditorFixes (fixesReply exampleEnv) = Returns (utf16 ''fixed'')"
    by (simp add: exampleEnv_def applyEditorFixes_def FENCE_def FENCE_MARKDOWN_def eval_strings)
  have b: "applyEditorFixes (fixesReply ?env) = Returns []"
    by (simp add: applyEditorFixes_def FENCE_def FENCE_MARKDOWN_def eval_strings)
  have d: "draftContent exampleState = utf16 ''draft''" by (simp add: exampleState_def)
  have n: "utf16 ''fixed'' \<noteq> []" by (simp add: utf16_def)
  show ?thesis
    using one_click_fix_success[OF h a] one_click_fix_success[OF h b] a d n by simp
qed

text \<open>The confirmation message carries three suggestion chips, not two.\<close>

theorem one_click_fix_chips_counterexample:
  "parseMessageContent
     (msgText (last (messages (handleSend exampleEnv (Some ONE_CLICK_FIX) exampleState)))) =
     Returns (FIX_DONE_CLEAN,
       JArray [JString [0x7EE7, 0x7EED, 0x5B8C, 0x5584, 0x8349, 0x7A3F],
               JString [0x518D, 0x6B21, 0x8BC4, 0x5BA1],
               JString [0x5B8C, 0x6210, 0x9879, 0x76EE]])"
proof -
  have h: "textToSend (Some ONE_CLICK_FIX) exampleState = ONE_CLICK_FIX"
    by (simp add: textToSend_def ONE_CLICK_FIX_def)
  have a: "applyEditorFixes (fixesReply exampleEnv) = Returns (utf16 ''fixed'')"
    by (simp add: exampleEnv_def applyEditorFixes_def FENCE_def FENCE_MARKDOWN_def eval_strings)
  have "handleSend exampleEnv (Some ONE_CLICK_FIX) exampleState =
          endTurn (oneClickFix exampleEnv exampleState (beginTurn exampleEnv ONE_CLICK_FIX exampleState))"
    using h by (rule handleSend_special)
  then have "msgText (last (messages (handleSend exampleEnv (Some ONE_CLICK_FIX) exampleState))) = FIX_DONE_TEXT"
    by (simp add: oneClickFix_success[OF a] messages_endTurn_not_thrown placeholder_def)
  then show ?thesis
    using FIX_DONE_TEXT_parse by (simp add: FIX_DONE_CHIPS_def)
qed

section \<open>JSON.parse and white space around the text\<close>

lemma behind_simps [simp]:
  "behind w None = None" "behind w (Some (x, r)) = Some (x, r @ [w])"
  by (simp_all add: behind_def)

lemma behind_consChar: "consChar x (behind w res) = behind w (consChar x res)"
  by (cases res) (auto simp: consChar_def)

lemma JSON_ws_facts:
  "isJSONWhiteSpace w \<Longrightarrow>
   w \<noteq> 34 \<and> w \<noteq> 92 \<and> w \<noteq> 117 \<and> hexValue w = None \<and> escapeChar w = None \<and> \<not> isDigit w \<and>
   w \<noteq> 45 \<and> w \<noteq> 46 \<and> w \<noteq> 43 \<and> w \<noteq> 101 \<and> w \<noteq> 69 \<and> w \<noteq> 48 \<and> w \<noteq> 91 \<and> w \<noteq> 93 \<and>
   w \<noteq> 123 \<and> w \<noteq> 125 \<and> w \<noteq> 44 \<and> w \<noteq> 58"
  unfolding isJSONWhiteSpace_def
  by (elim disjE) (simp_all add: hexValue_def escapeChar_def isDigit_def)

lemma parseString_ws_end:
  assumes "isJSONWhiteSpace w"
  shows "parseString [w] = None"
  using assms unfolding isJSONWhiteSpace_def by (auto simp: consChar_def)

lemma parseString_append_ws:
  assumes w: "isJSONWhiteSpace w"
  shows "parseString (s @ [w]) = behind w (parseString s)"
proof (induction s rule: length_induct)
  case (1 s)
  note f = JSON_ws_facts[OF w]
  show ?case
  proof (cases s)
    case Nil
    then show ?thesis using parseString_ws_end[OF w] by simp
  next
    case (Cons c cs)
    have ih: "parseString (cs @ [w]) = behind w (parseString cs)"
      using "1.IH" Cons by simp
    show ?thesis
    proof (cases "c = 34 \<or> c \<noteq> 92")
      case True
      then show ?thesis using Cons ih by (auto simp: behind_consChar)
    next
      case False
      then have c: "c = 92" by simp
      show ?thesis
      proof (cases cs)
        case Nil
        with c Cons f show ?thesis by simp
      next
        case e: (Cons e t)
        have iht: "parseString (t @ [w]) = behind w (parseString t)"
          using "1.IH" Cons e by simp
        show ?thesis
        proof (cases "e = 117")
          case False
          then show ?thesis using c Cons e iht
            by (simp add: behind_consChar split: option.splits)
        next
          case True
          show ?thesis
          proof (cases "length t \<ge> 4")
            case True
            then obtain h1 h2 h3 h4 t' where t: "t = h1 # h2 # h3 # h4 # t'"
              by (cases t; cases "tl t"; cases "tl (tl t)"; cases "tl (tl (tl t))") auto
            have iht': "parseString (t' @ [w]) = behind w (parseString t')"
              using "1.IH" Cons e t by simp
            show ?thesis using c Cons e \<open>e = 117\<close> t iht'
              by (simp add: behind_consChar split: option.splits)
          next
            case False
            then consider "t = []" | h1 where "t = [h1]" | h1 h2 where "t = [h1, h2]"
              | h1 h2 h3 where "t = [h1, h2, h3]"
              by (cases t; cases "tl t"; cases "tl (tl t)"; cases "tl (tl (tl t))") auto
            then show ?thesis using c Cons e \<open>e = 117\<close> f
              by cases (simp_all split: option.splits)
          qed
        qed
      qed
    qed
  qed
qed

lemma takeWhile_digit_ws:
  "isJSONWhiteSpace w \<Longrightarrow> takeWhile isDigit (r @ [w]) = takeWhile isDigit r"
  using JSON_ws_facts[of w] by (induction r) simp_all

lemma dropWhile_digit_ws:
  "isJSONWhiteSpace w \<Longrightarrow> dropWhile isDigit (r @ [w]) = dropWhile isDigit r @ [w]"
  using JSON_ws_facts[of w] by (induction r) simp_all

lemma parseInt_append_ws:
  "isJSONWhiteSpace w \<Longrightarrow> parseInt (s @ [w]) = behind w (parseInt s)"
  using JSON_ws_facts[of w]
  by (cases s) (simp_all add: parseInt_def takeWhile_digit_ws dropWhile_digit_ws)

lemma parseFrac_append_ws:
  "isJSONWhiteSpace w \<Longrightarrow> parseFrac (s @ [w]) = behind w (parseFrac s)"
  using JSON_ws_facts[of w]
  by (cases s) (simp_all add: parseFrac_def takeWhile_digit_ws dropWhile_digit_ws)

lemma parseExp_append_ws:
  assumes "isJSONWhiteSpace w"
  shows "parseExp (s @ [w]) = behind w (parseExp s)"
proof (cases s)
  case Nil
  then show ?thesis using JSON_ws_facts[OF assms] by (simp add: parseExp_def)
next
  case (Cons e r)
  show ?thesis
  proof (cases r)
    case Nil
    with Cons show ?thesis using JSON_ws_facts[OF assms] by (simp add: parseExp_def)
  next
    case g: (Cons g r')
    with Cons show ?thesis
      using JSON_ws_facts[OF assms]
      by (simp add: parseExp_def takeWhile_digit_ws[OF assms] dropWhile_digit_ws[OF assms])
  qed
qed

lemma parseNumber_append_ws:
  assumes "isJSONWhiteSpace w" and "s \<noteq> []"
  shows "parseNumber (s @ [w]) = behind w (parseNumber s)"
proof -
  obtain sg s1 where sg: "parseSign s = (sg, s1)" by (cases "parseSign s")
  have sg': "parseSign (s @ [w]) = (sg, s1 @ [w])"
    using sg assms(2) by (cases s) (auto simp: parseSign_def split: if_splits)
  show ?thesis
    unfolding parseNumber_def sg sg'
    by (simp add: parseInt_append_ws[OF assms(1)] parseFrac_append_ws[OF assms(1)]
        parseExp_append_ws[OF assms(1)] split: option.splits)
qed

lemma prefix_append_ws:
  "w \<notin> set p \<Longrightarrow> prefix p (s @ [w]) \<longleftrightarrow> prefix p s"
proof (induction p arbitrary: s)
  case Nil
  then show ?case by simp
next
  case (Cons a p)
  then show ?case by (cases s) auto
qed

lemma parseLiteral_append_ws:
  assumes "isJSONWhiteSpace w"
  shows "parseLiteral (s @ [w]) = behind w (parseLiteral s)"
proof -
  have n: "w \<notin> set (utf16 ''true'')" "w \<notin> set (utf16 ''false'')" "w \<notin> set (utf16 ''null'')"
    using assms unfolding isJSONWhiteSpace_def by (auto simp: utf16_def)
  have l: "prefix (utf16 ''true'') s \<Longrightarrow> 4 \<le> length s" 
    "prefix (utf16 ''false'') s \<Longrightarrow> 5 \<le> length s" "prefix (utf16 ''null'') s \<Longrightarrow> 4 \<le> length s"
    by (auto dest: prefix_length_le simp: utf16_def)
  show ?thesis
    unfolding parseLiteral_def prefix_append_ws[OF n(1)] prefix_append_ws[OF n(2)]
      prefix_append_ws[OF n(3)]
    using l by simp
qed

lemma skipWS_append_ws:
  "isJSONWhiteSpace w \<Longrightarrow>
   skipWS (s @ [w]) = (case skipWS s of [] \<Rightarrow> [] | d # r \<Rightarrow> d # r @ [w])"
  by (induction s) (simp_all add: skipWS_def)

lemma parse_append_ws:
  assumes w: "isJSONWhiteSpace w"
  shows "parseValue (s @ [w]) = behind w (parseValue s)"
    and "parseElements (s2 @ [w]) = behind w (parseElements s2)"
    and "parseMembers (s3 @ [w]) = behind w (parseMembers s3)"
proof (induction s and s2 and s3 rule: parseValue_parseElements_parseMembers.induct)
  case 1
  then show ?case using w by simp
next
  case (2 c cs)
  note f = JSON_ws_facts[OF w]
  show ?case
  proof (cases "isJSONWhiteSpace c")
    case True
    with 2(1) show ?thesis by simp
  next
    case nws: False
    show ?thesis
    proof (cases "c = 91")
      case True
      show ?thesis
      proof (cases "skipWS cs")
        case Nil
        with True nws show ?thesis by (simp add: skipWS_append_ws[OF w])
      next
        case (Cons d r)
        show ?thesis
        proof (cases "d = 93")
          case True
          with Cons \<open>c = 91\<close> nws show ?thesis by (simp add: skipWS_append_ws[OF w])
        next
          case False
          from 2(2)[OF nws \<open>c = 91\<close> Cons False]
          have "parseElements (cs @ [w]) = behind w (parseElements cs)" by simp
          with Cons \<open>c = 91\<close> nws False show ?thesis
            by (simp add: skipWS_append_ws[OF w] split: option.splits)
        qed
      qed
    next
      case n91: False
      show ?thesis
      proof (cases "c = 123")
        case True
        show ?thesis
        proof (cases "skipWS cs")
          case Nil
          with True nws show ?thesis by (simp add: skipWS_append_ws[OF w])
        next
          case (Cons d r)
          show ?thesis
          proof (cases "d = 125")
            case True
            with Cons \<open>c = 123\<close> nws show ?thesis by (simp add: skipWS_append_ws[OF w])
          next
            case False
            from 2(3)[OF nws n91 \<open>c = 123\<close> Cons False]
            have "parseMembers (cs @ [w]) = behind w (parseMembers cs)" by simp
            with Cons \<open>c = 123\<close> nws False show ?thesis
              by (simp add: skipWS_append_ws[OF w] split: option.splits)
          qed
        qed
      next
        case n123: False
        show ?thesis
        proof (cases "c = 34")
          case True
          with nws show ?thesis
            by (simp add: parseString_append_ws[OF w] split: option.splits)
        next
          case n34: False
          show ?thesis
          proof (cases "c = 45 \<or> isDigit c")
            case True
            have "parseNumber ((c # cs) @ [w]) = behind w (parseNumber (c # cs))"
              by (rule parseNumber_append_ws[OF w]) simp
            with True nws n91 n123 n34 show ?thesis
              by (simp split: option.splits)
          next
            case False
            have "parseLiteral ((c # cs) @ [w]) = behind w (parseLiteral (c # cs))"
              by (rule parseLiteral_append_ws[OF w])
            with False nws n91 n123 n34 show ?thesis by simp
          qed
        qed
      qed
    qed
  qed
next
  case (3 s)
  show ?case
  proof (cases "parseValue s")
    case None
    with 3(1) show ?thesis
      by (simp add: parseElements.simps[of s] parseElements.simps[of "s @ [w]"])
  next
    case (Some a)
    obtain v r where a: "a = (v, r)" by (cases a)
    have pv: "parseValue (s @ [w]) = Some (v, r @ [w])" using 3(1) Some a by simp
    show ?thesis
    proof (cases "length r < length s")
      case False
      with Some a pv show ?thesis
        by (simp add: parseElements.simps[of s] parseElements.simps[of "s @ [w]"])
    next
      case True
      show ?thesis
      proof (cases "skipWS r")
        case Nil
        with Some a pv True show ?thesis
          by (simp add: parseElements.simps[of s] parseElements.simps[of "s @ [w]"] skipWS_append_ws[OF w])
      next
        case (Cons d r')
        show ?thesis
        proof (cases "d = 44")
          case False
          with Cons Some a pv True show ?thesis
            by (simp add: parseElements.simps[of s] parseElements.simps[of "s @ [w]"] skipWS_append_ws[OF w])
        next
          case c: True
          from 3(2)[OF Some a[symmetric] True Cons c]
          have "parseElements (r' @ [w]) = behind w (parseElements r')" by simp
          with Cons Some a pv True c show ?thesis
            by (simp add: parseElements.simps[of s] parseElements.simps[of "s @ [w]"]
                skipWS_append_ws[OF w] split: option.splits)
        qed
      qed
    qed
  qed
next
  case (4 s)
  note f = JSON_ws_facts[OF w]
  note ps = parseMembers.simps[of s] parseMembers.simps[of "s @ [w]"]
  show ?case
  proof (cases "skipWS s")
    case Nil
    then show ?thesis by (simp add: ps skipWS_append_ws[OF w])
  next
    case q: (Cons q r)
    show ?thesis
    proof (cases "q = 34")
      case False
      with q show ?thesis by (simp add: ps skipWS_append_ws[OF w])
    next
      case q34: True
      show ?thesis
      proof (cases "parseString r")
        case None
        with q q34 show ?thesis
          by (simp add: ps skipWS_append_ws[OF w] parseString_append_ws[OF w])
      next
        case (Some a)
        obtain key r1 where a: "a = (key, r1)" by (cases a)
        have pk: "parseString (r @ [w]) = Some (key, r1 @ [w])"
          using Some a by (simp add: parseString_append_ws[OF w])
        show ?thesis
        proof (cases "skipWS r1")
          case Nil
          with q q34 Some a pk show ?thesis by (simp add: ps skipWS_append_ws[OF w])
        next
          case c: (Cons colon r2)
          show ?thesis
          proof (cases "colon = 58")
            case False
            with q q34 Some a pk c show ?thesis by (simp add: ps skipWS_append_ws[OF w])
          next
            case c58: True
            from 4(1)[OF q q34 Some a[symmetric] c c58]
            have pv: "parseValue (r2 @ [w]) = behind w (parseValue r2)" .
            show ?thesis
            proof (cases "parseValue r2")
              case None
              with q q34 Some a pk c c58 pv show ?thesis by (simp add: ps skipWS_append_ws[OF w])
            next
              case v: (Some b)
              obtain v r3 where b: "b = (v, r3)" by (cases b)
              have pv': "parseValue (r2 @ [w]) = Some (v, r3 @ [w])" using pv v b by simp
              show ?thesis
              proof (cases "length r3 < length r2")
                case False
                with q q34 Some a pk c c58 v b pv' show ?thesis
                  by (simp add: ps skipWS_append_ws[OF w])
              next
                case g: True
                show ?thesis
                proof (cases "skipWS r3")
                  case Nil
                  with q q34 Some a pk c c58 v b pv' g show ?thesis
                    by (simp add: ps skipWS_append_ws[OF w])
                next
                  case d: (Cons d r4)
                  show ?thesis
                  proof (cases "d = 44")
                    case False
                    with q q34 Some a pk c c58 v b pv' g d show ?thesis
                      by (simp add: ps skipWS_append_ws[OF w])
                  next
                    case d44: True
                    from 4(2)[OF q q34 Some a[symmetric] c c58 v b[symmetric] g d d44]
                    have "parseMembers (r4 @ [w]) = behind w (parseMembers r4)" .
                    with q q34 Some a pk c c58 v b pv' g d d44 show ?thesis
                      by (simp add: ps skipWS_append_ws[OF w] split: option.splits)
                  qed
                qed
              qed
            qed
          qed
        qed
      qed
    qed
  qed
qed

lemma skipWS_Nil_append_ws:
  "isJSONWhiteSpace w \<Longrightarrow> skipWS (r @ [w]) = [] \<longleftrightarrow> skipWS r = []"
  by (simp add: skipWS_append_ws split: list.splits)

lemma JSON_parse_append_ws:
  assumes "isJSONWhiteSpace w"
  shows "JSON_parse (s @ [w]) = JSON_parse s"
  by (cases "parseValue s")
    (auto simp: JSON_parse_def parse_append_ws(1)[OF assms] skipWS_Nil_append_ws[OF assms])

lemma JSON_parse_Cons_ws:
  "isJSONWhiteSpace w \<Longrightarrow> JSON_parse (w # s) = JSON_parse s"
  by (simp add: JSON_parse_def)

lemma readUpTo_Cons: "readUpTo s c r \<Longrightarrow> readUpTo (x # s) c r"
  unfolding readUpTo_def by (metis append_Cons)

lemma readUpTo_here: "readUpTo (c # r) c r"
  unfolding readUpTo_def by (metis append_Nil)

lemma readUpTo_append: "readUpTo s c r \<Longrightarrow> readUpTo (p @ s) c r"
  unfolding readUpTo_def by (metis append.assoc)

lemma readUpTo_trans: "readUpTo s c (y @ d # r) \<Longrightarrow> readUpTo s d r"
  unfolding readUpTo_def by (metis append.assoc append_Cons)

lemma readUpTo_snoc: "readUpTo (l @ r) (last l) r" if "l \<noteq> []"
  unfolding readUpTo_def using that by (metis append.assoc append_butlast_last_id append_Cons append_Nil)

lemma skipWS_readUpTo: "skipWS s = d # r \<Longrightarrow> readUpTo s d r"
  unfolding readUpTo_def skipWS_def by (metis takeWhile_dropWhile_id)

lemma consChar_Some_iff:
  "consChar x res = Some (k, r) \<longleftrightarrow> (\<exists>k'. res = Some (k', r) \<and> k = x # k')"
  by (cases res) (auto simp: consChar_def)

lemma parseString_readUpTo: "parseString s = Some (k, r) \<Longrightarrow> readUpTo s 34 r"
proof (induction s arbitrary: k r rule: length_induct)
  case (1 s)
  have ih: "\<And>t k'. length t < length s \<Longrightarrow> parseString t = Some (k', r) \<Longrightarrow> readUpTo t 34 r"
    using "1.IH" by blast
  show ?case
  proof (cases s)
    case Nil
    with "1.prems" show ?thesis by simp
  next
    case (Cons c cs)
    show ?thesis
    proof (cases "c = 34")
      case True
      with "1.prems" Cons show ?thesis by (simp add: readUpTo_here)
    next
      case n34: False
      show ?thesis
      proof (cases "c = 92")
        case False
        with n34 "1.prems" Cons obtain k' where "parseString cs = Some (k', r)"
          by (auto simp: consChar_Some_iff split: if_splits)
        from ih[OF _ this] Cons show ?thesis by (simp add: readUpTo_Cons)
      next
        case c: True
        show ?thesis
        proof (cases cs)
          case Nil
          with c Cons "1.prems" show ?thesis by simp
        next
          case e: (Cons e t)
          show ?thesis
          proof (cases "e = 117")
            case False
            with c Cons e "1.prems" obtain k' where "parseString t = Some (k', r)"
              by (auto simp: consChar_Some_iff split: option.splits)
            from ih[OF _ this] Cons e show ?thesis by (simp add: readUpTo_Cons)
          next
            case True
            with c Cons e "1.prems" obtain h1 h2 h3 h4 t' k' where
              t: "t = h1 # h2 # h3 # h4 # t'" and "parseString t' = Some (k', r)"
              by (auto simp: consChar_Some_iff split: list.splits option.splits)
            from ih[OF _ this(2)] Cons e t show ?thesis by (simp add: readUpTo_Cons)
          qed
        qed
      qed
    qed
  qed
qed

lemma takeWhile_digit_last:
  "isDigit d \<Longrightarrow> isDigit (last (d # takeWhile isDigit r))"
  by (metis (mono_tags, lifting) last_in_set list.discI set_ConsD set_takeWhileD)

lemma takeWhile_digit_last':
  "takeWhile isDigit t \<noteq> [] \<Longrightarrow> isDigit (last (takeWhile isDigit t))"
  by (metis last_in_set set_takeWhileD)

lemma parseInt_read:
  assumes "parseInt s = Some (l, r)"
  shows "s = l @ r \<and> l \<noteq> [] \<and> isDigit (last l)"
proof (cases s)
  case Nil
  with assms show ?thesis by (simp add: parseInt_def)
next
  case (Cons d t)
  show ?thesis
  proof (cases "d = 48")
    case True
    with assms Cons show ?thesis by (auto simp: parseInt_def isDigit_def)
  next
    case False
    with assms Cons have d: "isDigit d" and l: "l = d # takeWhile isDigit t"
      and r: "r = dropWhile isDigit t"
      by (auto simp: parseInt_def split: if_splits)
    from takeWhile_digit_last[OF d, of t] l r Cons show ?thesis by simp
  qed
qed

lemma parseFrac_read:
  "parseFrac s = Some (l, r) \<Longrightarrow> s = l @ r \<and> (l = [] \<or> isDigit (last l))"
proof (cases s)
  case Nil
  assume "parseFrac s = Some (l, r)"
  with Nil show ?thesis by (simp add: parseFrac_def)
next
  case (Cons p t)
  assume a: "parseFrac s = Some (l, r)"
  show ?thesis
  proof (cases "p = 46")
    case False
    with a Cons show ?thesis by (simp add: parseFrac_def)
  next
    case True
    with a Cons have n: "takeWhile isDigit t \<noteq> []" and l: "l = 46 # takeWhile isDigit t"
      and r: "r = dropWhile isDigit t"
      by (auto simp: parseFrac_def split: if_splits)
    from n have "isDigit (last (takeWhile isDigit t))"
      by (metis last_in_set set_takeWhileD)
    with n l r Cons True show ?thesis by simp
  qed
qed

lemma parseExp_read:
  assumes a: "parseExp s = Some (l, r)"
  shows "s = l @ r \<and> (l = [] \<or> isDigit (last l))"
proof (cases s)
  case Nil
  with a show ?thesis by (simp add: parseExp_def)
next
  case (Cons e t)
  show ?thesis
  proof (cases "e = 101 \<or> e = 69")
    case False
    with a Cons show ?thesis by (simp add: parseExp_def)
  next
    case True
    have main: "s = l @ r \<and> isDigit (last l)"
      if t: "t = sg @ t1"
        and p: "parseExp s = (if takeWhile isDigit t1 = [] then None
                 else Some (e # sg @ takeWhile isDigit t1, dropWhile isDigit t1))" for sg t1
    proof -
      from a p have n: "takeWhile isDigit t1 \<noteq> []" and l: "l = e # sg @ takeWhile isDigit t1"
        and r: "r = dropWhile isDigit t1"
        by (simp_all split: if_split_asm)
      from takeWhile_digit_last'[OF n] n l r t Cons show ?thesis by simp
    qed
    show ?thesis
    proof (cases t)
      case Nil
      with a Cons True show ?thesis by (simp add: parseExp_def)
    next
      case g: (Cons g r')
      show ?thesis
      proof (cases "g = 43 \<or> g = 45")
        case sgn: True
        have "parseExp s = (if takeWhile isDigit r' = [] then None
                 else Some (e # [g] @ takeWhile isDigit r', dropWhile isDigit r'))"
          using Cons g True sgn by (simp add: parseExp_def)
        from main[OF _ this] g show ?thesis by simp
      next
        case False
        have "parseExp s = (if takeWhile isDigit t = [] then None
                 else Some (e # [] @ takeWhile isDigit t, dropWhile isDigit t))"
          using Cons g True False by (simp add: parseExp_def)
        from main[OF _ this] show ?thesis by simp
      qed
    qed
  qed
qed

lemma parseNumber_readUpTo:
  assumes "parseNumber s = Some (l, r)"
  shows "\<exists>c. readUpTo s c r \<and> isDigit c"
proof -
  obtain sg s1 where sg: "parseSign s = (sg, s1)" by (cases "parseSign s")
  then have s: "s = sg @ s1" by (cases s) (auto simp: parseSign_def split: if_splits)
  from assms sg obtain ip s2 fp s3 ep where
    i: "parseInt s1 = Some (ip, s2)" and f: "parseFrac s2 = Some (fp, s3)"
    and e: "parseExp s3 = Some (ep, r)"
    by (auto simp: parseNumber_def split: option.splits)
  from parseInt_read[OF i] parseFrac_read[OF f] parseExp_read[OF e]
  have d: "s1 = ip @ fp @ ep @ r" "ip \<noteq> []" "isDigit (last ip)"
    "fp = [] \<or> isDigit (last fp)" "ep = [] \<or> isDigit (last ep)" by simp_all
  let ?l = "sg @ ip @ fp @ ep"
  have n: "?l \<noteq> []" using d(2) by simp
  have "isDigit (last ?l)" using d(2-5) by (cases "ep = []"; cases "fp = []") simp_all
  moreover have "readUpTo (?l @ r) (last ?l) r" using n by (rule readUpTo_snoc)
  ultimately show ?thesis using s d(1) by auto
qed

lemma prefix_readUpTo:
  assumes "prefix (p @ [c]) s" and "n = Suc (length p)"
  shows "readUpTo s c (drop n s)"
proof -
  from assms obtain z where "s = (p @ [c]) @ z" by (auto simp: prefix_def)
  then show ?thesis using assms(2) by (simp add: readUpTo_def)
qed

lemma parseLiteral_readUpTo:
  assumes "parseLiteral s = Some (v, r)"
  shows "\<exists>c. readUpTo s c r \<and> (c = 101 \<or> c = 108)"
proof -
  have t: "utf16 ''true'' = [116, 114, 117] @ [101]" and f: "utf16 ''false'' = [102, 97, 108, 115] @ [101]"
    and n: "utf16 ''null'' = [110, 117, 108] @ [108]"
    by (simp_all add: utf16_def)
  from assms consider "prefix (utf16 ''true'') s" "r = drop 4 s"
    | "prefix (utf16 ''false'') s" "r = drop 5 s" | "prefix (utf16 ''null'') s" "r = drop 4 s"
    unfolding parseLiteral_def by (auto split: if_split_asm)
  then show ?thesis
  proof cases
    case 1
    from prefix_readUpTo[OF 1(1)[unfolded t], of 4] 1(2) have "readUpTo s 101 r" by simp
    then show ?thesis by blast
  next
    case 2
    from prefix_readUpTo[OF 2(1)[unfolded f], of 5] 2(2) have "readUpTo s 101 r" by simp
    then show ?thesis by blast
  next
    case 3
    from prefix_readUpTo[OF 3(1)[unfolded n], of 4] 3(2) have "readUpTo s 108 r" by simp
    then show ?thesis by blast
  qed
qed

lemma readUpTo_compose: "readUpTo s c r0 \<Longrightarrow> readUpTo r0 d r \<Longrightarrow> readUpTo s d r"
  unfolding readUpTo_def by (metis append.assoc append_Cons)

lemma not_ws_facts:
  "\<not> isWhiteSpace 93" "\<not> isWhiteSpace 125" "\<not> isWhiteSpace 34" "\<not> isWhiteSpace 101"
  "\<not> isWhiteSpace 108" "isDigit c \<Longrightarrow> \<not> isWhiteSpace c"
  by (simp_all add: isWhiteSpace_def isDigit_def)

lemma parse_readUpTo:
  "\<forall>v r. parseValue s = Some (v, r) \<longrightarrow> (\<exists>c. readUpTo s c r \<and> \<not> isWhiteSpace c)"
  "\<forall>vs r. parseElements s2 = Some (vs, r) \<longrightarrow> readUpTo s2 93 r"
  "\<forall>ms r. parseMembers s3 = Some (ms, r) \<longrightarrow> readUpTo s3 125 r"
proof (induction s and s2 and s3 rule: parseValue_parseElements_parseMembers.induct)
  case 1
  then show ?case by simp
next
  case (2 c cs)
  show ?case
  proof (intro allI impI)
    fix v r assume a: "parseValue (c # cs) = Some (v, r)"
    show "\<exists>x. readUpTo (c # cs) x r \<and> \<not> isWhiteSpace x"
    proof (cases "isJSONWhiteSpace c")
      case True
      with a 2(1) show ?thesis by (auto intro: readUpTo_Cons)
    next
      case nws: False
      show ?thesis
      proof (cases "c = 91")
        case True
        from a True nws obtain d r0 where s: "skipWS cs = d # r0"
          by (cases "skipWS cs") auto
        show ?thesis
        proof (cases "d = 93")
          case True
          with a \<open>c = 91\<close> nws s have "r = r0" by simp
          with skipWS_readUpTo[OF s] True have "readUpTo (c # cs) 93 r" by (simp add: readUpTo_Cons)
          then show ?thesis using not_ws_facts(1) by blast
        next
          case False
          with a \<open>c = 91\<close> nws s obtain vs where "parseElements cs = Some (vs, r)"
            by (auto split: option.splits)
          with 2(2)[OF nws \<open>c = 91\<close> s False] have "readUpTo (c # cs) 93 r"
            by (simp add: readUpTo_Cons)
          then show ?thesis using not_ws_facts(1) by blast
        qed
      next
        case n91: False
        show ?thesis
        proof (cases "c = 123")
          case True
          from a True nws n91 obtain d r0 where s: "skipWS cs = d # r0"
            by (cases "skipWS cs") auto
          show ?thesis
          proof (cases "d = 125")
            case True
            with a \<open>c = 123\<close> nws n91 s have "r = r0" by simp
            with skipWS_readUpTo[OF s] True have "readUpTo (c # cs) 125 r" by (simp add: readUpTo_Cons)
            then show ?thesis using not_ws_facts(2) by blast
          next
            case False
            with a \<open>c = 123\<close> nws n91 s obtain ms where "parseMembers cs = Some (ms, r)"
              by (auto split: option.splits)
            with 2(3)[OF nws n91 \<open>c = 123\<close> s False] have "readUpTo (c # cs) 125 r"
              by (simp add: readUpTo_Cons)
            then show ?thesis using not_ws_facts(2) by blast
          qed
        next
          case n123: False
          show ?thesis
          proof (cases "c = 34")
            case True
            with a nws obtain str where "parseString cs = Some (str, r)"
              by (auto split: option.splits)
            from parseString_readUpTo[OF this] have "readUpTo (c # cs) 34 r" by (rule readUpTo_Cons)
            then show ?thesis using not_ws_facts(3) by blast
          next
            case n34: False
            show ?thesis
            proof (cases "c = 45 \<or> isDigit c")
              case True
              with a nws n91 n123 n34 obtain num where "parseNumber (c # cs) = Some (num, r)"
                by (auto split: option.splits)
              from parseNumber_readUpTo[OF this] show ?thesis using not_ws_facts(6) by blast
            next
              case False
              with a nws n91 n123 n34 have "parseLiteral (c # cs) = Some (v, r)" by simp
              from parseLiteral_readUpTo[OF this] show ?thesis using not_ws_facts(4,5) by blast
            qed
          qed
        qed
      qed
    qed
  qed
next
  case (3 s)
  show ?case
  proof (intro allI impI)
    fix vs r assume a: "parseElements s = Some (vs, r)"
    from a obtain v r0 where v: "parseValue s = Some (v, r0)"
      by (subst (asm) parseElements.simps) (auto split: option.splits)
    from a v have g: "length r0 < length s"
      by (subst (asm) parseElements.simps) (auto split: if_splits)
    from a v g obtain d r' where d: "skipWS r0 = d # r'"
      by (subst (asm) parseElements.simps) (cases "skipWS r0"; simp)
    from 3(1) v obtain x where x: "readUpTo s x r0" by blast
    have sd: "readUpTo s d r'" using x skipWS_readUpTo[OF d] by (rule readUpTo_compose)
    show "readUpTo s 93 r"
    proof (cases "d = 44")
      case True
      with a v g d obtain vs' where "parseElements r' = Some (vs', r)"
        by (subst (asm) parseElements.simps) (auto split: option.splits)
      with 3(2)[OF v refl g d True] have "readUpTo r' 93 r" by simp
      with sd show ?thesis by (rule readUpTo_compose)
    next
      case False
      with a v g d have "d = 93 \<and> r = r'"
        by (subst (asm) parseElements.simps) (auto split: if_splits)
      with sd show ?thesis by simp
    qed
  qed
next
  case (4 s)
  show ?case
  proof (intro allI impI)
    fix ms r assume a: "parseMembers s = Some (ms, r)"
    note a' = a[unfolded parseMembers.simps[of s]]
    from a' obtain q r0 where q: "skipWS s = q # r0" by (cases "skipWS s") auto
    from a' q have q34: "q = 34" by (auto split: if_splits)
    from a' q q34 obtain key r1 where k: "parseString r0 = Some (key, r1)"
      by (auto split: option.splits)
    from a' q q34 k obtain colon r2 where c: "skipWS r1 = colon # r2"
      by (cases "skipWS r1") auto
    from a' q q34 k c have c58: "colon = 58" by (auto split: if_splits)
    from a' q q34 k c c58 obtain v r3 where v: "parseValue r2 = Some (v, r3)"
      by (auto split: option.splits)
    from a' q q34 k c c58 v have g: "length r3 < length r2" by (auto split: if_splits)
    from a' q q34 k c c58 v g obtain d r4 where d: "skipWS r3 = d # r4"
      by (cases "skipWS r3") auto
    from 4(1)[OF q q34 k refl c c58] v obtain x where x: "readUpTo r2 x r3" by blast
    have "readUpTo s 34 r1"
      using skipWS_readUpTo[OF q] parseString_readUpTo[OF k] by (rule readUpTo_compose)
    then have "readUpTo s colon r2" using skipWS_readUpTo[OF c] by (rule readUpTo_compose)
    then have "readUpTo s x r3" using x by (rule readUpTo_compose)
    then have sd: "readUpTo s d r4" using skipWS_readUpTo[OF d] by (rule readUpTo_compose)
    show "readUpTo s 125 r"
    proof (cases "d = 44")
      case True
      with a' q q34 k c c58 v g d obtain ms' where "parseMembers r4 = Some (ms', r)"
        by (auto split: option.splits)
      with 4(2)[OF q q34 k refl c c58 v refl g d True] have "readUpTo r4 125 r" by simp
      with sd show ?thesis by (rule readUpTo_compose)
    next
      case False
      with a' q q34 k c c58 v g d have "d = 125 \<and> r = r4" by (auto split: if_splits)
      with sd show ?thesis by simp
    qed
  qed
qed

text \<open>A value always consumes input, so the length tests of the parser never fail.\<close>

lemma parseValue_consumes: "parseValue s = Some (v, r) \<Longrightarrow> length r < length s"
proof -
  assume "parseValue s = Some (v, r)"
  with parse_readUpTo(1) obtain c where "readUpTo s c r" by blast
  then show ?thesis unfolding readUpTo_def by auto
qed

lemma parseValue_other_ws:
  assumes "isWhiteSpace c" and "\<not> isJSONWhiteSpace c"
  shows "parseValue (c # cs) = None"
proof -
  from assms have f: "c \<noteq> 91" "c \<noteq> 123" "c \<noteq> 34" "c \<noteq> 45" "\<not> isDigit c"
    "c \<noteq> 116" "c \<noteq> 102" "c \<noteq> 110"
    unfolding isWhiteSpace_def isDigit_def by auto
  then have "parseLiteral (c # cs) = None"
    by (simp add: parseLiteral_def utf16_def)
  with f assms(2) show ?thesis by simp
qed

lemma JSON_parse_trimStart:
  "JSON_parse s = Some v \<Longrightarrow> JSON_parse (trimStart s) = Some v"
proof (induction s)
  case Nil
  then show ?case by (simp add: trimStart_def)
next
  case (Cons c cs)
  show ?case
  proof (cases "isWhiteSpace c")
    case False
    with Cons.prems show ?thesis by (simp add: trimStart_def)
  next
    case True
    show ?thesis
    proof (cases "isJSONWhiteSpace c")
      case j: True
      with Cons.prems have "JSON_parse cs = Some v" by (simp add: JSON_parse_Cons_ws)
      from Cons.IH[OF this] True show ?thesis by (simp add: trimStart_def)
    next
      case False
      from parseValue_other_ws[OF True False] Cons.prems show ?thesis
        by (simp add: JSON_parse_def)
    qed
  qed
qed

lemma skipWS_Nil_all: "skipWS r = [] \<Longrightarrow> x \<in> set r \<Longrightarrow> isJSONWhiteSpace x"
  by (simp add: skipWS_def)

lemma JSON_parse_last_ws:
  assumes "JSON_parse (ys @ [c]) = Some v" and "isWhiteSpace c"
  shows "isJSONWhiteSpace c"
proof -
  from assms(1) obtain r where p: "parseValue (ys @ [c]) = Some (v, r)" and s: "skipWS r = []"
    by (auto simp: JSON_parse_def split: option.splits if_splits)
  from parse_readUpTo(1) p obtain x u where u: "ys @ [c] = u @ x # r" and x: "\<not> isWhiteSpace x"
    unfolding readUpTo_def by blast
  show ?thesis
  proof (cases "r = []")
    case True
    with u have "x = c" by simp
    with x assms(2) show ?thesis by simp
  next
    case False
    with u have "last r = c" by (metis last.simps last_appendR list.discI snoc_eq_iff_butlast)
    with False have "c \<in> set r" by (metis last_in_set)
    with s show ?thesis by (rule skipWS_Nil_all)
  qed
qed

lemma JSON_parse_trimEnd:
  "JSON_parse s = Some v \<Longrightarrow> JSON_parse (trimEnd s) = Some v"
proof (induction s rule: rev_induct)
  case Nil
  then show ?case by (simp add: trimEnd_def)
next
  case (snoc c ys)
  show ?case
  proof (cases "isWhiteSpace c")
    case False
    with snoc.prems show ?thesis by (simp add: trimEnd_def)
  next
    case True
    from JSON_parse_last_ws[OF snoc.prems True] have j: "isJSONWhiteSpace c" .
    with snoc.prems have "JSON_parse ys = Some v" by (simp add: JSON_parse_append_ws)
    from snoc.IH[OF this] True show ?thesis by (simp add: trimEnd_def)
  qed
qed

lemma JSON_parse_trim: "JSON_parse s = Some v \<Longrightarrow> JSON_parse (trim s) = Some v"
  unfolding trim_def by (intro JSON_parse_trimEnd JSON_parse_trimStart)

text \<open>
  Claim C10, as the code has it. When the text between the first delimiter and the next
  one (or the end of the text) is JSON, of whatever type, the value it parses to is
  returned as \<open>suggestions\<close> as it is: nothing checks that it is an array of strings.
\<close>

theorem suggestions_unvalidated:
  assumes "isPiece SUGGESTIONS_DELIMITER pre (SUGGESTIONS_DELIMITER @ seg @ tail)"
    and "isPiece SUGGESTIONS_DELIMITER seg tail"
    and "JSON_parse seg = Some v"
  shows "parseMessageContent (pre @ SUGGESTIONS_DELIMITER @ seg @ tail) = Returns (trim pre, v)"
proof -
  have "JSON_parse (trim seg) = Some v"
    using assms(3) by (rule JSON_parse_trim)
  moreover have "parseMessageContent (pre @ SUGGESTIONS_DELIMITER @ seg @ tail) =
      Returns (trim pre, case JSON_parse (trim seg) of None \<Rightarrow> JArray [] | Some v \<Rightarrow> v)"
    using assms(1,2) by (rule parseMessageContent_pieces)
  ultimately show ?thesis by simp
qed

text \<open>A number, a string and an object as payloads.\<close>

theorem suggestions_unvalidated_witness:
  "parseMessageContent (utf16 ''hi'' @ SUGGESTIONS_DELIMITER @ utf16 '' -12.5e3 '') =
     Returns (utf16 ''hi'', JNumber (utf16 ''-12.5e3'')) \<and>
   parseMessageContent (utf16 ''hi'' @ SUGGESTIONS_DELIMITER @ ([34] @ utf16 ''go'' @ [34]) @
       (SUGGESTIONS_DELIMITER @ utf16 ''x'')) =
     Returns (utf16 ''hi'', JString (utf16 ''go'')) \<and>
   parseMessageContent (utf16 ''hi'' @ SUGGESTIONS_DELIMITER @
       (utf16 ''{'' @ [34] @ utf16 ''a'' @ [34] @ utf16 '': [true, null]}'')) =
     Returns (utf16 ''hi'', JObject [(utf16 ''a'', JArray [JBool True, JNull])])"
proof -
  let ?D = SUGGESTIONS_DELIMITER
  let ?obj = "utf16 ''{'' @ [34] @ utf16 ''a'' @ [34] @ utf16 '': [true, null]}''"
  have t: "trim (utf16 ''hi'') = utf16 ''hi''" by (simp add: eval_strings)
  have h: "\<not> sublist ?D (utf16 ''hi'' @ butlast ?D)"
    by (simp add: eval_strings sublist_Cons_right)
  have p: "isPiece ?D (utf16 ''hi'') (?D @ x)" for x
    using h by (simp add: isPiece_def)
  have 1: "isPiece ?D (utf16 '' -12.5e3 '') []"
    by (simp add: isPiece_def) (simp add: eval_strings sublist_Cons_right)
  have 2: "isPiece ?D ([34] @ utf16 ''go'' @ [34]) (?D @ utf16 ''x'')"
    by (simp add: isPiece_def) (simp add: eval_strings sublist_Cons_right)
  have 3: "isPiece ?D ?obj []"
    by (simp add: isPiece_def) (simp add: eval_strings sublist_Cons_right)
  have j1: "JSON_parse (utf16 '' -12.5e3 '') = Some (JNumber (utf16 ''-12.5e3''))"
    by (simp add: eval_strings eval_json)
  have j2: "JSON_parse ([34] @ utf16 ''go'' @ [34]) = Some (JString (utf16 ''go''))"
    by (simp add: eval_strings eval_json)
  have j3: "JSON_parse ?obj = Some (JObject [(utf16 ''a'', JArray [JBool True, JNull])])"
    by (simp add: eval_strings eval_json)
  show ?thesis
    using suggestions_unvalidated[where pre="utf16 ''hi''" and seg="utf16 '' -12.5e3 ''" and tail="[]", OF _ 1 j1]
      suggestions_unvalidated[OF p 2 j2]
      suggestions_unvalidated[where pre="utf16 ''hi''" and seg="?obj" and tail="[]", OF _ 3 j3]
      p[of "utf16 '' -12.5e3 '' @ []"] p[of "?obj @ []"] t
    by simp
qed

text \<open>
  All of the text behind the first delimiter can be JSON and still not be what is
  parsed: a JSON string that contains the delimiter is cut at it.
\<close>

theorem suggestions_unvalidated_counterexample:
  "JSON_parse ([34] @ SUGGESTIONS_DELIMITER @ [34]) = Some (JString SUGGESTIONS_DELIMITER) \<and>
   parseMessageContent (utf16 ''hi'' @ SUGGESTIONS_DELIMITER @ ([34] @ SUGGESTIONS_DELIMITER @ [34])) =
     Returns (utf16 ''hi'', JArray [])"
  by (simp add: parseMessageContent_def eval_strings eval_json)

end
